theory Spec2Isabelle
  imports Complex_Main "HOL-Library.Word" "HOL-Library.Log_Nat"
begin

section \<open>Python values, errors and loops\<close>

text \<open>
  The repository is Python.  Integers are unbounded (\<^typ>\<open>int\<close>), \<open>//\<close> and \<open>%\<close> are
  floor division and its remainder (HOL's \<open>div\<close> and \<open>mod\<close> on \<^typ>\<open>int\<close>), and an
  exception is a value of \<open>py_error\<close> returned on the left of a sum.
\<close>

datatype py_error = ValueError | ZeroDivisionError | IndexError | OverflowError

text \<open>\<open>for i in xs: s = body(i, s)\<close>, stopping at the first exception.\<close>

fun for_loop :: "'a list \<Rightarrow> ('a \<Rightarrow> 's \<Rightarrow> py_error + 's) \<Rightarrow> 's \<Rightarrow> py_error + 's" where
  "for_loop [] body s = Inr s"
| "for_loop (i # is) body s =
     (case body i s of Inl e \<Rightarrow> Inl e | Inr s' \<Rightarrow> for_loop is body s')"

text \<open>\<open>range(n)\<close>: the naturals below \<open>n\<close>, none when \<open>n \<le> 0\<close>.\<close>

definition py_range :: "int \<Rightarrow> nat list" where
  "py_range n = [0..<nat n]"

subsection \<open>Strings\<close>

text \<open>
  A \<^typ>\<open>char\<close> is one character of the file, a code point below 256 (ASCII and
  Latin-1).  \<open>py_isspace\<close> is \<open>str.isspace\<close> on that range: tab, line feed, vertical tab,
  form feed, carriage return, the four separators \<open>0x1c..0x1f\<close>, the space, the next-line
  control \<open>0x85\<close> and the no-break space \<open>0xa0\<close>.  The decimal digits of that range are
  \<open>0..9\<close>.
\<close>

abbreviation LF :: char where "LF \<equiv> CHR 0x0A"
abbreviation CR :: char where "CR \<equiv> CHR 0x0D"

definition py_isspace :: "char \<Rightarrow> bool" where
  "py_isspace c =
     (let n = (of_char c :: nat)
      in (9 \<le> n \<and> n \<le> 13) \<or> (28 \<le> n \<and> n \<le> 32) \<or> n = 133 \<or> n = 160)"

definition is_digit :: "char \<Rightarrow> bool" where
  "is_digit c = (let n = (of_char c :: nat) in 48 \<le> n \<and> n \<le> 57)"

definition digit_val :: "char \<Rightarrow> nat" where
  "digit_val c = of_char c - 48"

definition digit_char :: "nat \<Rightarrow> char" where
  "digit_char n = char_of (48 + n)"

text \<open>
  \<open>str(n)\<close> for an integer: its decimal digits, after a minus sign when negative.
  (CPython's limit on the digits of a converted integer, see \<open>max_str_digits\<close> below,
  bounds \<open>str\<close> as well: \<open>py_str\<close> is \<open>str\<close> on the integers of at most that many digits.)
\<close>

fun str_nat :: "nat \<Rightarrow> string" where
  "str_nat n = (if n < 10 then [digit_char n] else str_nat (n div 10) @ [digit_char (n mod 10)])"

declare str_nat.simps [simp del]

definition py_str :: "int \<Rightarrow> string" where
  "py_str i = (if i < 0 then CHR ''-'' # str_nat (nat (- i)) else str_nat (nat i))"

text \<open>\<open>s.strip()\<close>, \<open>s.split()\<close> (runs of whitespace separate, no empty token) and
  \<open>sep.join(parts)\<close>.\<close>

definition py_strip :: "string \<Rightarrow> string" where
  "py_strip s = rev (dropWhile py_isspace (rev (dropWhile py_isspace s)))"

text \<open>The first argument of \<open>split_ws\<close> is the token being read, last character first.\<close>

fun split_ws :: "string \<Rightarrow> string \<Rightarrow> string list" where
  "split_ws cur [] = (if cur = [] then [] else [rev cur])"
| "split_ws cur (c # cs) =
     (if py_isspace c then (if cur = [] then split_ws [] cs else rev cur # split_ws [] cs)
      else split_ws (c # cur) cs)"

definition py_split :: "string \<Rightarrow> string list" where
  "py_split s = split_ws [] s"

fun py_join :: "string \<Rightarrow> string list \<Rightarrow> string" where
  "py_join sep [] = []"
| "py_join sep [t] = t"
| "py_join sep (t # u # ts) = t @ sep @ py_join sep (u # ts)"

text \<open>
  \<open>int(s)\<close> in base 10: surrounding whitespace is dropped, then an optional sign, then
  decimal digits in which single underscores may stand between two digits.  Anything
  else is a \<open>ValueError\<close>.  The flag of \<open>int_digits\<close> says that the previous character
  was a digit.

  CPython (3.11 and later) also refuses, with a \<open>ValueError\<close>, a literal of more than
  \<open>sys.get_int_max_str_digits()\<close> digits, 4300 unless the interpreter is configured
  otherwise; the sign and the underscores do not count, leading zeros do.
\<close>

definition max_str_digits :: nat where
  "max_str_digits = 4300"

fun int_digits :: "nat \<Rightarrow> bool \<Rightarrow> string \<Rightarrow> nat option" where
  "int_digits acc prev [] = (if prev then Some acc else None)"
| "int_digits acc prev (c # cs) =
     (if is_digit c then int_digits (10 * acc + digit_val c) True cs
      else if c = CHR ''_'' \<and> prev then int_digits acc False cs
      else None)"

definition int_literal :: "string \<Rightarrow> nat option" where
  "int_literal cs =
     (case int_digits 0 False cs of
        None \<Rightarrow> None
      | Some n \<Rightarrow> if max_str_digits < length (filter is_digit cs) then None else Some n)"

definition py_int :: "string \<Rightarrow> py_error + int" where
  "py_int s =
     (case py_strip s of
        [] \<Rightarrow> Inl ValueError
      | c # cs \<Rightarrow>
          if c = CHR ''-'' then
            (case int_literal cs of None \<Rightarrow> Inl ValueError | Some n \<Rightarrow> Inr (- int n))
          else if c = CHR ''+'' then
            (case int_literal cs of None \<Rightarrow> Inl ValueError | Some n \<Rightarrow> Inr (int n))
          else
            (case int_literal (c # cs) of None \<Rightarrow> Inl ValueError | Some n \<Rightarrow> Inr (int n)))"

text \<open>\<open>[int(x) for x in parts]\<close> and \<open>map(int, parts)\<close> consumed in full: the first token
  that \<open>int\<close> rejects raises.\<close>

fun map_int :: "string list \<Rightarrow> py_error + int list" where
  "map_int [] = Inr []"
| "map_int (t # ts) =
     (case py_int t of
        Inl e \<Rightarrow> Inl e
      | Inr v \<Rightarrow> (case map_int ts of Inl e \<Rightarrow> Inl e | Inr vs \<Rightarrow> Inr (v # vs)))"

subsection \<open>Text files\<close>

text \<open>
  A file opened in text mode is read with universal newlines: \<open>\r\n\<close> and a lone
  \<open>\r\<close> arrive as \<open>\n\<close>.  \<open>readline\<close> returns the next line with its terminator and what
  is left of the file; \<open>file_lines\<close> is the iteration \<open>for line in f\<close>.
\<close>

fun universal_newlines :: "string \<Rightarrow> string" where
  "universal_newlines [] = []"
| "universal_newlines [c] = [if c = CR then LF else c]"
| "universal_newlines (c # d # cs) =
     (if c = CR then (if d = LF then LF # universal_newlines cs
                      else LF # universal_newlines (d # cs))
      else c # universal_newlines (d # cs))"

fun readline :: "string \<Rightarrow> string \<times> string" where
  "readline [] = ([], [])"
| "readline (c # cs) =
     (if c = LF then ([c], cs) else (case readline cs of (l, r) \<Rightarrow> (c # l, r)))"

function file_lines :: "string \<Rightarrow> string list" where
  "file_lines s = (if s = [] then [] else fst (readline s) # file_lines (snd (readline s)))"
  by pat_completeness auto
termination
proof (relation "measure length")
  fix s :: string
  assume "s \<noteq> []"
  then obtain c cs where s: "s = c # cs" by (cases s) auto
  have "length (snd (readline t)) \<le> length t" for t
    by (induction t) (auto split: prod.splits)
  then have "length (snd (readline cs)) \<le> length cs" .
  then show "(snd (readline s), s) \<in> measure length"
    by (auto simp: s split: prod.splits)
qed simp

declare file_lines.simps [simp del]

subsection \<open>Two-dimensional NumPy arrays\<close>

text \<open>
  A 2-D \<open>ndarray\<close> is its shape and its cells.  An array of \<open>dtype=np.uint8\<close> holds
  8-bit words.  Storing a Python integer outside \<open>0..255\<close> into such an array raises
  \<open>OverflowError\<close> (NumPy 2; older releases wrap modulo 256 with a warning).
\<close>

record 'a ndarray =
  nrows :: nat
  ncols :: nat
  cell :: "nat \<Rightarrow> nat \<Rightarrow> 'a"

definition np_rows :: "'a ndarray \<Rightarrow> 'a list list" where
  "np_rows arr = map (\<lambda>y. map (cell arr y) [0..<ncols arr]) [0..<nrows arr]"

definition to_uint8 :: "int \<Rightarrow> py_error + 8 word" where
  "to_uint8 v = (if 0 \<le> v \<and> v \<le> 255 then Inr (word_of_int v) else Inl OverflowError)"

text \<open>\<open>np.zeros((height, width), dtype=np.uint8)\<close>; a negative dimension is a \<open>ValueError\<close>.\<close>

definition np_zeros :: "int \<Rightarrow> int \<Rightarrow> py_error + 8 word ndarray" where
  "np_zeros height width =
     (if height < 0 \<or> width < 0 then Inl ValueError
      else Inr \<lparr>nrows = nat height, ncols = nat width, cell = (\<lambda>y x. 0)\<rparr>)"

text \<open>\<open>img[y, x] = v\<close> for a \<open>uint8\<close> array and a Python integer \<open>v\<close>.\<close>

definition np_setitem :: "8 word ndarray \<Rightarrow> nat \<Rightarrow> nat \<Rightarrow> int \<Rightarrow> py_error + 8 word ndarray" where
  "np_setitem img y x v =
     (if y < nrows img \<and> x < ncols img
      then (case to_uint8 v of
              Inl e \<Rightarrow> Inl e
            | Inr u \<Rightarrow> Inr (img\<lparr>cell := (cell img)(y := (cell img y)(x := u))\<rparr>))
      else Inl IndexError)"

text \<open>\<open>np.full((height, width), v, dtype=np.uint8)\<close>.\<close>

definition np_full :: "int \<Rightarrow> int \<Rightarrow> int \<Rightarrow> py_error + 8 word ndarray" where
  "np_full height width v =
     (if height < 0 \<or> width < 0 then Inl ValueError
      else (case to_uint8 v of
              Inl e \<Rightarrow> Inl e
            | Inr u \<Rightarrow> Inr \<lparr>nrows = nat height, ncols = nat width, cell = (\<lambda>y x. u)\<rparr>))"

text \<open>
  Slice assignment \<open>img[r0:r1, c0:c1] = src\<close> with non-negative bounds: the cell
  \<open>(y, x)\<close> of the block takes \<open>src[y - r0, x - c0]\<close>.  \<open>np_assign_scalar\<close> is the same
  with one Python integer for the whole block of a \<open>uint8\<close> array.
\<close>

definition np_assign ::
  "'a ndarray \<Rightarrow> nat \<Rightarrow> nat \<Rightarrow> nat \<Rightarrow> nat \<Rightarrow> (nat \<Rightarrow> nat \<Rightarrow> 'a) \<Rightarrow> 'a ndarray" where
  "np_assign img r0 r1 c0 c1 src =
     img\<lparr>cell := (\<lambda>y x. if r0 \<le> y \<and> y < r1 \<and> c0 \<le> x \<and> x < c1
                          then src (y - r0) (x - c0) else cell img y x)\<rparr>"

definition np_assign_scalar ::
  "8 word ndarray \<Rightarrow> nat \<Rightarrow> nat \<Rightarrow> nat \<Rightarrow> nat \<Rightarrow> int \<Rightarrow> py_error + 8 word ndarray" where
  "np_assign_scalar img r0 r1 c0 c1 v =
     (case to_uint8 v of
        Inl e \<Rightarrow> Inl e
      | Inr u \<Rightarrow> Inr (np_assign img r0 r1 c0 c1 (\<lambda>y x. u)))"

subsection \<open>The plaintext matrix format\<close>

text \<open>
  The format as the specification words it (section 6): the header line
  \<open>H W C\<close>, then one line per row, the integers of a line separated by single spaces and
  every line ended by a line feed.
\<close>

definition row_line :: "int list \<Rightarrow> string" where
  "row_line vs = py_join '' '' (map py_str vs) @ [LF]"

definition plaintext_matrix :: "int \<Rightarrow> int \<Rightarrow> int \<Rightarrow> int list list \<Rightarrow> string" where
  "plaintext_matrix h w c rows = row_line [h, w, c] @ concat (map row_line rows)"

text \<open>Auxiliary notions for the proofs: strings without whitespace, tokens, and the value
  of a digit string.\<close>

definition no_space :: "string \<Rightarrow> bool" where
  "no_space s = list_all (\<lambda>c. \<not> py_isspace c) s"

definition token :: "string \<Rightarrow> bool" where
  "token t = (t \<noteq> [] \<and> no_space t)"

definition dec_val :: "nat \<Rightarrow> string \<Rightarrow> nat" where
  "dec_val acc ds = foldl (\<lambda>a c. 10 * a + digit_val c) acc ds"

text \<open>The rows of the \<open>h\<close> by \<open>w\<close> grid whose pixel \<open>(y, x)\<close> is \<open>f y x\<close>.\<close>

definition grid :: "int \<Rightarrow> int \<Rightarrow> (nat \<Rightarrow> nat \<Rightarrow> 'a) \<Rightarrow> 'a list list" where
  "grid h w f = map (\<lambda>y. map (f y) [0..<nat w]) [0..<nat h]"

text \<open>
  A text is in the format for \<open>(h, w, c)\<close> when it is the header and exactly \<open>h\<close> row
  lines of \<open>w * c\<close> integers each.  \<open>byte_rows\<close>: every value lies in \<open>0..255\<close>.
\<close>

definition matrix_text :: "int \<Rightarrow> int \<Rightarrow> int \<Rightarrow> string \<Rightarrow> bool" where
  "matrix_text h w c txt =
     (\<exists>rows. txt = plaintext_matrix h w c rows \<and> int (length rows) = h \<and>
             (\<forall>row \<in> set rows. int (length row) = w * c))"

definition byte_rows :: "int list list \<Rightarrow> bool" where
  "byte_rows rows = (\<forall>row \<in> set rows. \<forall>v \<in> set row. 0 \<le> v \<and> v \<le> 255)"

definition emits_bytes :: "string \<Rightarrow> bool" where
  "emits_bytes txt = (\<exists>h w rows. txt = plaintext_matrix h w 1 rows \<and> byte_rows rows)"

text \<open>The number of line feeds of a text.\<close>

definition count_LF :: "string \<Rightarrow> nat" where
  "count_LF s = length (filter (\<lambda>c. c = LF) s)"

subsection \<open>Floating point\<close>

text \<open>
  A Python float is an IEEE 754 double; a finite one is a rational \<open>m * 2^e\<close> with
  \<open>\<bar>m\<bar> < 2^53\<close>.  Every operation returns the exact result rounded to the nearest such
  number, ties to the even significand.  \<open>round_to p\<close> is that rounding for a significand
  of \<open>p\<close> bits (53 for a double, 24 for NumPy's \<open>float32\<close>); the exponent is not bounded,
  which leaves out overflow and subnormal numbers.
\<close>

definition ilog2 :: "rat \<Rightarrow> int" where
  "ilog2 r =
     (case quotient_of r of
        (a, b) \<Rightarrow>
          let k = bitlen a - bitlen b
          in if 2 powi k \<le> r then k else k - 1)"

definition round_even :: "rat \<Rightarrow> int" where
  "round_even r =
     (let n = \<lfloor>r\<rfloor>; d = r - of_int n
      in if d < 1 / 2 then n else if 1 / 2 < d then n + 1 else if even n then n else n + 1)"

definition round_to :: "nat \<Rightarrow> rat \<Rightarrow> rat" where
  "round_to p r =
     (if r = 0 then 0
      else let e = ilog2 \<bar>r\<bar> - (int p - 1)
           in of_int (round_even (r / 2 powi e)) * 2 powi e)"

definition fl :: "rat \<Rightarrow> rat" where
  "fl r = round_to 53 r"

definition fl32 :: "rat \<Rightarrow> rat" where
  "fl32 r = round_to 24 r"

text \<open>\<open>a / b\<close> on integers (true division, correctly rounded) and \<open>int(r)\<close> on a float
  (truncation towards zero).\<close>

definition py_truediv :: "int \<Rightarrow> int \<Rightarrow> py_error + rat" where
  "py_truediv a b = (if b = 0 then Inl ZeroDivisionError else Inr (fl (of_int a / of_int b)))"

definition py_trunc :: "rat \<Rightarrow> int" where
  "py_trunc r = (if 0 \<le> r then \<lfloor>r\<rfloor> else \<lceil>r\<rceil>)"

subsection \<open>The random source\<close>

text \<open>
  The module \<open>random\<close> is a stream of raw draws, one consumed by each call.  Every value
  that \<open>randint(a, b)\<close> can return, each integer of \<open>a..b\<close>, and every value that
  \<open>random()\<close> can return, each multiple of \<open>2^-53\<close> in \<open>[0, 1)\<close>, is the result for
  some raw draw; \<open>randint\<close> on an empty range is a \<open>ValueError\<close>.
\<close>

type_synonym rng = "nat \<Rightarrow> int"

definition next_rng :: "rng \<Rightarrow> rng" where
  "next_rng g = (\<lambda>n. g (Suc n))"

definition randint :: "int \<Rightarrow> int \<Rightarrow> rng \<Rightarrow> py_error + int \<times> rng" where
  "randint a b g =
     (if b < a then Inl ValueError
      else Inr (a + g 0 mod (b - a + 1), next_rng g))"

definition random :: "rng \<Rightarrow> rat \<times> rng" where
  "random g = (of_int (g 0 mod 2 ^ 53) / 2 ^ 53, next_rng g)"

text \<open>Sequencing of calls that may raise.\<close>

definition and_then :: "py_error + 'a \<Rightarrow> ('a \<Rightarrow> py_error + 'b) \<Rightarrow> py_error + 'b" where
  "and_then m f = (case m of Inl e \<Rightarrow> Inl e | Inr v \<Rightarrow> f v)"

text \<open>\<open>range(a, b)\<close> on integers, and \<open>xs[i] = v\<close>, \<open>xs[y][x] = v\<close> on lists: a negative
  index counts from the end, an index out of range is an \<open>IndexError\<close>.\<close>

definition py_range2 :: "int \<Rightarrow> int \<Rightarrow> int list" where
  "py_range2 a b = [a..b - 1]"

definition py_index :: "nat \<Rightarrow> int \<Rightarrow> py_error + nat" where
  "py_index n i =
     (if 0 \<le> i \<and> i < int n then Inr (nat i)
      else if - int n \<le> i \<and> i < 0 then Inr (nat (i + int n))
      else Inl IndexError)"

definition setitem2 :: "'a list list \<Rightarrow> int \<Rightarrow> int \<Rightarrow> 'a \<Rightarrow> py_error + 'a list list" where
  "setitem2 pixels y x v =
     and_then (py_index (length pixels) y) (\<lambda>j.
     and_then (py_index (length (pixels ! j)) x) (\<lambda>k.
       Inr (pixels[j := (pixels ! j)[k := v]])))"

text \<open>\<open>np.clip(img, 0, 255).astype(np.uint8)\<close> on an array of floats: every cell is
  clipped, then truncated.\<close>

definition clip_astype_uint8 :: "rat ndarray \<Rightarrow> 8 word ndarray" where
  "clip_astype_uint8 img =
     \<lparr>nrows = nrows img, ncols = ncols img,
      cell = (\<lambda>y x. word_of_int (py_trunc (max 0 (min 255 (cell img y x)))))\<rparr>"

section \<open>Edge Detection/convert\_image.py\<close>

text \<open>
  The image codec (PIL) is outside the repository.  What \<open>convert_to_txt\<close> gets from it
  is a grayscale image: \<open>img.size = (width, height)\<close> and \<open>list(img.getdata())\<close>, the
  \<open>width * height\<close> samples in row-major order, each a byte.  PIL keeps the two sizes in
  C integers, so both are below \<open>2^31\<close>.  What \<open>convert_to_img\<close> hands to it is the size
  for \<open>Image.new('L', (width, height))\<close> and the buffer for \<open>img.putdata\<close>.
\<close>

record gray_image =
  img_width :: nat
  img_height :: nat
  img_data :: "int list"

definition grayscale :: "gray_image \<Rightarrow> bool" where
  "grayscale img =
     (img_width img < 2 ^ 31 \<and> img_height img < 2 ^ 31 \<and>
      length (img_data img) = img_width img * img_height img \<and>
      list_all (\<lambda>p. 0 \<le> p \<and> p \<le> 255) (img_data img))"

text \<open>
  \<open>for i in range(0, len(pixels), width): row = pixels[i:i+width]\<close>, lines 20-21, for a
  positive \<open>width\<close>.  With \<open>width = 0\<close> the call of \<open>range\<close> itself raises (see
  \<open>convert_to_txt\<close>), so there are no rows.
\<close>

function pixel_rows :: "nat \<Rightarrow> nat \<Rightarrow> int list \<Rightarrow> int list list" where
  "pixel_rows i width pixels =
     (if width = 0 \<or> length pixels \<le> i then []
      else take width (drop i pixels) # pixel_rows (i + width) width pixels)"
  by pat_completeness auto
termination
  by (relation "measure (\<lambda>(i, width, pixels). length pixels - i)") auto

declare pixel_rows.simps [simp del]

text \<open>
  \<open>convert_to_txt\<close>, lines 5-26.  The result is the text left in the output file and the
  exception that the \<open>except\<close> clause caught, if any: \<open>range(0, n, 0)\<close> is a
  \<open>ValueError\<close>, raised after the header line has been written.
\<close>

record txt_outcome =
  file_text :: string
  caught :: "py_error option"

definition convert_to_txt :: "gray_image \<Rightarrow> txt_outcome" where
  "convert_to_txt img =
     (let width = img_width img; height = img_height img; pixels = img_data img;
          header = py_str (int height) @ '' '' @ py_str (int width) @ '' 1'' @ [LF]
      in if width = 0 then \<lparr>file_text = header, caught = Some ValueError\<rparr>
         else \<lparr>file_text =
                  foldl (\<lambda>f row. f @ py_join '' '' (map py_str row) @ [LF])
                    header (pixel_rows 0 width pixels),
               caught = None\<rparr>)"

text \<open>
  The header stage of \<open>convert_to_img\<close>, lines 34-43, on the first line of the file:
  \<open>Error: Empty file\<close>, \<open>Error: Invalid header format\<close>, an exception of \<open>int\<close>, or
  \<open>height, width, channels\<close>.
\<close>

datatype header_outcome =
    Header_empty
  | Header_invalid "string list"
  | Header_raised py_error
  | Header_ok int int int

definition read_header :: "string \<Rightarrow> header_outcome" where
  "read_header line =
     (let header = py_split (py_strip line)
      in if header = [] then Header_empty
         else if length header \<noteq> 3 then Header_invalid header
         else (case map_int header of
                 Inl e \<Rightarrow> Header_raised e
               | Inr vs \<Rightarrow> Header_ok (vs ! 0) (vs ! 1) (vs ! 2)))"

text \<open>
  \<open>convert_to_img\<close>, lines 28-61.  \<open>Image_data warned width height pixels\<close>: the pixel
  lines were read, the \<open>Warning: Expected ... pixels\<close> line was printed iff \<open>warned\<close>, and
  the codec was called with \<open>Image.new('L', (width, height))\<close> and \<open>putdata(pixels)\<close>.
  The other outcomes produce no image.
\<close>

datatype img_outcome =
    Empty_file
  | Invalid_header "string list"
  | Raised py_error
  | Image_data bool int int "int list"

definition read_pixels :: "string \<Rightarrow> py_error + int list" where
  "read_pixels rest =
     for_loop (file_lines rest)
       (\<lambda>line pixels.
          case map_int (py_split (py_strip line)) of
            Inl e \<Rightarrow> Inl e
          | Inr vals \<Rightarrow> Inr (pixels @ vals)) []"

definition convert_to_img :: "string \<Rightarrow> img_outcome" where
  "convert_to_img txt =
     (case readline (universal_newlines txt) of
        (first, rest) \<Rightarrow>
          (case read_header first of
             Header_empty \<Rightarrow> Empty_file
           | Header_invalid header \<Rightarrow> Invalid_header header
           | Header_raised e \<Rightarrow> Raised e
           | Header_ok height width channels \<Rightarrow>
               (case read_pixels rest of
                  Inl e \<Rightarrow> Raised e
                | Inr pixels \<Rightarrow>
                    Image_data (int (length pixels) \<noteq> width * height) width height pixels)))"

text \<open>
  The command surface, lines 63-79: what the script prints or calls, and the exit status
  of the process.  Both converters catch every exception, so after a call the script ends
  with status 0.
\<close>

datatype cli_step =
    Print_usage
  | Print_unknown_mode
  | Call_convert_to_txt string string
  | Call_convert_to_img string string

definition main :: "string list \<Rightarrow> cli_step \<times> int" where
  "main argv =
     (if length argv < 4 then (Print_usage, 1)
      else
        let mode = argv ! 1; input_file = argv ! 2; output_file = argv ! 3
        in if mode = ''to_txt'' then (Call_convert_to_txt input_file output_file, 0)
           else if mode = ''to_img'' then (Call_convert_to_img input_file output_file, 0)
           else (Print_unknown_mode, 0))"

section \<open>Image Segmentation/visualize.py\<close>

text \<open>
  The header stage of \<open>load_segmented_image\<close>, lines 17-24; every failure is a
  \<open>ValueError\<close>.  The rest of the function is NumPy's \<open>loadtxt\<close> and \<open>reshape\<close>.
\<close>

definition load_segmented_header :: "string \<Rightarrow> py_error + int \<times> int \<times> int" where
  "load_segmented_header txt =
     (let header = py_strip (fst (readline (universal_newlines txt)))
      in if header = [] then Inl ValueError
         else
           let parts = py_split header
           in if length parts \<noteq> 3 then Inl ValueError
              else (case map_int parts of
                      Inl e \<Rightarrow> Inl e
                    | Inr vs \<Rightarrow> Inr (vs ! 0, vs ! 1, vs ! 2)))"

section \<open>Edge Detection/generate\_test\_images.py\<close>

text \<open>
  Each generator writes its file as it goes: the header line, then for every row the
  values joined by single spaces and a line feed.  The result of a model is the text of
  the finished file, or the exception that ended the call.
\<close>

text \<open>\<open>create_gradient_image(h, w, filename)\<close>, lines 11-27.\<close>

text \<open>The expression \<open>int((x / w) * 255)\<close> of line 21.\<close>

definition gradient_value :: "int \<Rightarrow> nat \<Rightarrow> int" where
  "gradient_value w x = py_trunc (fl (fl (of_int (int x) / of_int w) * 255))"

definition create_gradient_image :: "int \<Rightarrow> int \<Rightarrow> py_error + string" where
  "create_gradient_image h w =
     for_loop (py_range h)
       (\<lambda>y f.
          and_then
            (for_loop (py_range w)
               (\<lambda>x row.
                  and_then (py_truediv (int x) w) (\<lambda>q.
                    let val = py_trunc (fl (q * 255));
                        val = (if int x mod 50 < 5 then 255 - val else val)
                    in Inr (row @ [py_str val]))) [])
            (\<lambda>row. Inr (f @ py_join '' '' row @ [LF])))
       (py_str h @ '' '' @ py_str w @ '' 1'' @ [LF])"

text \<open>\<open>create_shapes_image(h, w, filename)\<close>, lines 29-62.  The grid is complete before
  the file is opened, so an exception of the drawing stage leaves no file text.\<close>

definition fill_rectangle ::
  "int \<Rightarrow> int \<Rightarrow> int list list \<times> rng \<Rightarrow> py_error + int list list \<times> rng" where
  "fill_rectangle h w s =
     (case s of (pixels, g) \<Rightarrow>
        and_then (randint 0 (w - 100) g) (\<lambda>(rx, g).
        and_then (randint 0 (h - 100) g) (\<lambda>(ry, g).
        and_then (randint 30 100 g) (\<lambda>(rw, g).
        and_then (randint 30 100 g) (\<lambda>(rh, g).
        and_then (randint 150 250 g) (\<lambda>(val, g).
        and_then
          (for_loop (py_range2 ry (min (ry + rh) h))
             (\<lambda>y. for_loop (py_range2 rx (min (rx + rw) w))
                (\<lambda>x pixels. setitem2 pixels y x val)) pixels)
          (\<lambda>pixels. Inr (pixels, g))))))))"

definition fill_circle ::
  "int \<Rightarrow> int \<Rightarrow> int list list \<times> rng \<Rightarrow> py_error + int list list \<times> rng" where
  "fill_circle h w s =
     (case s of (pixels, g) \<Rightarrow>
        and_then (randint 50 (w - 50) g) (\<lambda>(cx, g).
        and_then (randint 50 (h - 50) g) (\<lambda>(cy, g).
        and_then (randint 20 50 g) (\<lambda>(r, g).
        and_then (randint 150 250 g) (\<lambda>(val, g).
        and_then
          (for_loop (py_range2 (max 0 (cy - r)) (min h (cy + r + 1)))
             (\<lambda>y. for_loop (py_range2 (max 0 (cx - r)) (min w (cx + r + 1)))
                (\<lambda>x pixels.
                   if (x - cx) ^ 2 + (y - cy) ^ 2 \<le> r ^ 2 then setitem2 pixels y x val
                   else Inr pixels)) pixels)
          (\<lambda>pixels. Inr (pixels, g)))))))"

definition create_shapes_image :: "int \<Rightarrow> int \<Rightarrow> rng \<Rightarrow> py_error + string" where
  "create_shapes_image h w g =
     and_then (for_loop (py_range 5) (\<lambda>_. fill_rectangle h w)
                 (replicate (nat h) (replicate (nat w) 50), g)) (\<lambda>s.
     and_then (for_loop (py_range 3) (\<lambda>_. fill_circle h w) s) (\<lambda>(pixels, g).
       Inr (foldl (\<lambda>f row. f @ py_join '' '' (map py_str row) @ [LF])
              (py_str h @ '' '' @ py_str w @ '' 1'' @ [LF]) pixels)))"

text \<open>A grid of \<open>h\<close> rows of \<open>w\<close> values, each the background 50 or a fill of
  \<open>150..250\<close>.\<close>

definition shape_grid :: "int \<Rightarrow> int \<Rightarrow> int list list \<Rightarrow> bool" where
  "shape_grid h w pixels =
     (length pixels = nat h \<and>
      (\<forall>row \<in> set pixels. length row = nat w \<and>
         (\<forall>v \<in> set row. v = 50 \<or> (150 \<le> v \<and> v \<le> 250))))"

text \<open>\<open>create_checkerboard_image(h, w, filename, block_size=32)\<close>, lines 64-79.\<close>

definition create_checkerboard_image :: "int \<Rightarrow> int \<Rightarrow> int \<Rightarrow> py_error + string" where
  "create_checkerboard_image h w block_size =
     for_loop (py_range h)
       (\<lambda>y f.
          and_then
            (for_loop (py_range w)
               (\<lambda>x row.
                  if block_size = 0 then Inl ZeroDivisionError
                  else
                    let bx = int x div block_size;
                        by = int y div block_size;
                        val = (if (bx + by) mod 2 = 0 then 200 else 50)
                    in Inr (row @ [py_str val])) [])
            (\<lambda>row. Inr (f @ py_join '' '' row @ [LF])))
       (py_str h @ '' '' @ py_str w @ '' 1'' @ [LF])"

text \<open>
  \<open>create_noisy_edges_image(h, w, filename)\<close>, lines 81-104: the base level of a pixel
  (lines 90-96), one row with its noise (lines 88-101), and the file.
\<close>

definition noisy_base :: "nat \<Rightarrow> nat \<Rightarrow> int" where
  "noisy_base y x =
     (let band = (int y div 64) mod 2;
          base = (if band = 0 then 180 else 60)
      in if int x mod 100 < 10 then 255 - base else base)"

definition noisy_edges_row :: "int \<Rightarrow> nat \<Rightarrow> rng \<Rightarrow> py_error + string list \<times> rng" where
  "noisy_edges_row w y g =
     for_loop (py_range w)
       (\<lambda>x (row, g).
          let base = noisy_base y x
          in and_then (randint (- 20) 20 g) (\<lambda>(noise, g).
               let val = max 0 (min 255 (base + noise))
               in Inr (row @ [py_str val], g))) ([], g)"

definition create_noisy_edges_image :: "int \<Rightarrow> int \<Rightarrow> rng \<Rightarrow> py_error + string" where
  "create_noisy_edges_image h w g =
     and_then
       (for_loop (py_range h)
          (\<lambda>y (f, g).
             and_then (noisy_edges_row w y g)
               (\<lambda>(row, g). Inr (f @ py_join '' '' row @ [LF], g)))
          (py_str h @ '' '' @ py_str w @ '' 1'' @ [LF], g))
       (\<lambda>(f, g). Inr f)"

section \<open>Image Segmentation/generate\_test\_images.py\<close>

text \<open>\<open>generate_checkerboard_image(width, height, block_size, dark, bright)\<close>, lines 66-81.\<close>

definition generate_checkerboard_image ::
  "int \<Rightarrow> int \<Rightarrow> int \<Rightarrow> int \<Rightarrow> int \<Rightarrow> py_error + 8 word ndarray" where
  "generate_checkerboard_image width height block_size dark bright =
     (case np_zeros height width of
        Inl e \<Rightarrow> Inl e
      | Inr img0 \<Rightarrow>
          for_loop (py_range height) (\<lambda>y.
            for_loop (py_range width) (\<lambda>x img.
              if block_size = 0 then Inl ZeroDivisionError
              else
                let block_y = int y div block_size;
                    block_x = int x div block_size
                in if (block_x + block_y) mod 2 = 0
                   then np_setitem img y x dark
                   else np_setitem img y x bright)) img0)"

text \<open>\<open>save_image_txt(arr, filename)\<close>, lines 19-27: the text written to the file.\<close>

definition save_image_txt :: "8 word ndarray \<Rightarrow> string" where
  "save_image_txt arr =
     foldl (\<lambda>f y. f @ py_join '' '' (map (\<lambda>v. py_str (uint v)) (map (cell arr y) [0..<ncols arr]))
                    @ [LF])
       (py_str (int (nrows arr)) @ '' '' @ py_str (int (ncols arr)) @ '' 1'' @ [LF])
       [0..<nrows arr]"

text \<open>\<open>generate_bimodal_image(width, height, bg_val, fg_val)\<close>, lines 29-38.\<close>

definition generate_bimodal_image :: "int \<Rightarrow> int \<Rightarrow> int \<Rightarrow> int \<Rightarrow> py_error + 8 word ndarray" where
  "generate_bimodal_image width height bg_val fg_val =
     and_then (np_zeros height width) (\<lambda>img.
     and_then (np_assign_scalar img 0 (nrows img) 0 (nat (width div 2)) bg_val) (\<lambda>img.
       np_assign_scalar img 0 (nrows img) (nat (width div 2)) (ncols img) fg_val))"

text \<open>\<open>generate_circle_image(width, height, bg_val, fg_val)\<close>, lines 40-53.\<close>

definition generate_circle_image :: "int \<Rightarrow> int \<Rightarrow> int \<Rightarrow> int \<Rightarrow> py_error + 8 word ndarray" where
  "generate_circle_image width height bg_val fg_val =
     and_then (np_full height width bg_val) (\<lambda>img.
       let cy = height div 2; cx = width div 2;
           radius = min width height div 3
       in for_loop (py_range height) (\<lambda>y.
            for_loop (py_range width) (\<lambda>x img.
              if (int x - cx) ^ 2 + (int y - cy) ^ 2 \<le> radius ^ 2
              then np_setitem img y x fg_val else Inr img)) img)"

text \<open>\<open>generate_gradient_image(width, height)\<close>, lines 55-64.\<close>

definition generate_gradient_image :: "int \<Rightarrow> int \<Rightarrow> py_error + 8 word ndarray" where
  "generate_gradient_image width height =
     and_then (np_zeros height width) (\<lambda>img.
       for_loop (py_range width) (\<lambda>x img.
         and_then (py_truediv (255 * int x) (width - 1)) (\<lambda>q.
           np_assign_scalar img 0 (nrows img) x (Suc x) (py_trunc q))) img)"

text \<open>
  \<open>generate_noisy_bimodal_image(width, height, bg_mean, fg_mean, noise_std)\<close>, lines
  83-99.  \<open>noise_bg\<close> and \<open>noise_fg\<close> are the two arrays that \<open>np.random.normal\<close>
  returns, which raises on a negative standard deviation.
\<close>

definition generate_noisy_bimodal_image ::
  "int \<Rightarrow> int \<Rightarrow> rat \<Rightarrow> rat \<Rightarrow> rat \<Rightarrow> (nat \<Rightarrow> nat \<Rightarrow> rat) \<Rightarrow> (nat \<Rightarrow> nat \<Rightarrow> rat)
     \<Rightarrow> py_error + 8 word ndarray" where
  "generate_noisy_bimodal_image width height bg_mean fg_mean noise_std noise_bg noise_fg =
     (if height < 0 \<or> width < 0 then Inl ValueError
      else if noise_std < 0 then Inl ValueError
      else
        let img = \<lparr>nrows = nat height, ncols = nat width, cell = (\<lambda>y x. 0)\<rparr>;
            img = np_assign img 0 (nrows img) 0 (nat (width div 2))
                    (\<lambda>y x. fl32 (fl (bg_mean + noise_bg y x)));
            img = np_assign img 0 (nrows img) (nat (width div 2)) (ncols img)
                    (\<lambda>y x. fl32 (fl (fg_mean + noise_fg y x)))
        in Inr (clip_astype_uint8 img))"

text \<open>\<open>generate_three_level_image(width, height)\<close>, lines 101-114.\<close>

definition generate_three_level_image :: "int \<Rightarrow> int \<Rightarrow> py_error + 8 word ndarray" where
  "generate_three_level_image width height =
     and_then (np_zeros height width) (\<lambda>img.
       let third = nat (width div 3)
       in and_then (np_assign_scalar img 0 (nrows img) 0 third 30) (\<lambda>img.
          and_then (np_assign_scalar img 0 (nrows img) third (2 * third) 128) (\<lambda>img.
            np_assign_scalar img 0 (nrows img) (2 * third) (ncols img) 230)))"

text \<open>
  \<open>generate_large_test_image(width, height)\<close>, lines 116-138.  \<open>noise\<close> is the array
  that \<open>np.random.randint(0, 256, ..., dtype=np.uint8)\<close> returns.
\<close>

definition generate_large_test_image ::
  "int \<Rightarrow> int \<Rightarrow> (nat \<Rightarrow> nat \<Rightarrow> 8 word) \<Rightarrow> py_error + 8 word ndarray" where
  "generate_large_test_image width height noise =
     and_then (np_zeros height width) (\<lambda>img.
       let half_h = nat (height div 2); half_w = nat (width div 2)
       in and_then
            (for_loop (py_range (width div 2)) (\<lambda>x img.
               and_then (py_truediv (255 * int x) (width div 2 - 1)) (\<lambda>q.
                 np_assign_scalar img 0 half_h x (Suc x) (py_trunc q))) img) (\<lambda>img.
          and_then (np_assign_scalar img 0 half_h half_w (ncols img) 200) (\<lambda>img.
          and_then (np_assign_scalar img half_h (nrows img) 0 half_w 50) (\<lambda>img.
            Inr (np_assign img half_h (nrows img) half_w (ncols img) noise)))))"

text \<open>
  \<open>generate_very_large_image(width, height)\<close>, lines 140-159.  \<open>noise_top\<close> and
  \<open>noise_bottom\<close> are the arrays that \<open>np.random.normal(60, 30, ...)\<close> and
  \<open>np.random.normal(180, 30, ...)\<close> return.
\<close>

definition generate_very_large_image ::
  "int \<Rightarrow> int \<Rightarrow> (nat \<Rightarrow> nat \<Rightarrow> rat) \<Rightarrow> (nat \<Rightarrow> nat \<Rightarrow> rat) \<Rightarrow> py_error + 8 word ndarray" where
  "generate_very_large_image width height noise_top noise_bottom =
     (if height < 0 \<or> width < 0 then Inl ValueError
      else
        let img = \<lparr>nrows = nat height, ncols = nat width, cell = (\<lambda>y x. 0)\<rparr>;
            img = np_assign img 0 (nat (height div 2)) 0 (ncols img)
                    (\<lambda>y x. fl32 (noise_top y x));
            img = np_assign img (nat (height div 2)) (nrows img) 0 (ncols img)
                    (\<lambda>y x. fl32 (noise_bottom y x))
        in Inr (clip_astype_uint8 img))"

section \<open>Image Segmentation/generate\_large\_images.py\<close>

text \<open>\<open>create_bimodal_image(h, w, filename)\<close>, lines 9-23: one \<open>f.write\<close> per pixel.\<close>

definition create_bimodal_image :: "int \<Rightarrow> int \<Rightarrow> rng \<Rightarrow> py_error + string" where
  "create_bimodal_image h w g =
     and_then
       (for_loop (py_range (h * w))
          (\<lambda>i (f, g).
             case random g of
               (r, g) \<Rightarrow>
                 and_then (if r < 1 / 2 then randint 20 80 g else randint 180 240 g)
                   (\<lambda>(val, g). Inr (f @ py_str val @ [LF], g)))
          (py_str h @ '' '' @ py_str w @ '' 1'' @ [LF], g))
       (\<lambda>(f, g). Inr f)"

section \<open>Image Segmentation/ReadImage.py\<close>

text \<open>
  \<open>save_image_matrix(input_path, output_txt_path, grayscale)\<close>, lines 4-44, from the
  array that \<open>np.array(img)\<close> gives: of shape \<open>(H, W)\<close> for a grayscale image, of shape
  \<open>(H, W, 3)\<close> for an RGB image.
\<close>

datatype raster = Gray "8 word ndarray" | RGB "(8 word \<times> 8 word \<times> 8 word) ndarray"

fun save_image_matrix :: "raster \<Rightarrow> string" where
  "save_image_matrix (Gray arr) =
     foldl (\<lambda>f y. f @ py_join '' '' (map (\<lambda>v. py_str (uint v)) (map (cell arr y) [0..<ncols arr]))
                    @ [LF])
       (py_str (int (nrows arr)) @ '' '' @ py_str (int (ncols arr)) @ '' '' @ py_str 1 @ [LF])
       [0..<nrows arr]"
| "save_image_matrix (RGB arr) =
     foldl (\<lambda>f y. f @ py_join '' ''
                      (map py_str
                         (foldl (\<lambda>row_vals x.
                                   case cell arr y x of
                                     (r, g, b) \<Rightarrow> row_vals @ [uint r, uint g, uint b])
                            [] [0..<ncols arr]))
                    @ [LF])
       (py_str (int (nrows arr)) @ '' '' @ py_str (int (ncols arr)) @ '' '' @ py_str 3 @ [LF])
       [0..<nrows arr]"

text \<open>The values of row \<open>y\<close> of an RGB array, interleaved \<open>R G B R G B ...\<close>.\<close>

definition rgb_row :: "(8 word \<times> 8 word \<times> 8 word) ndarray \<Rightarrow> nat \<Rightarrow> int list" where
  "rgb_row arr y =
     concat (map (\<lambda>x. case cell arr y x of (r, g, b) \<Rightarrow> [uint r, uint g, uint b])
               [0..<ncols arr])"

section \<open>Properties of the text functions\<close>


subsection \<open>Characters\<close>

lemma digit_val_digit_char: "n < 10 \<Longrightarrow> digit_val (digit_char n) = n"
  by (simp add: digit_val_def digit_char_def)

lemma is_digit_digit_char: "n < 10 \<Longrightarrow> is_digit (digit_char n)"
  by (simp add: is_digit_def digit_char_def)

lemma is_digit_not_space: "is_digit c \<Longrightarrow> \<not> py_isspace c"
  by (auto simp: is_digit_def py_isspace_def Let_def)

lemma str_nat_digits: "list_all is_digit (str_nat n)"
proof (induction n rule: str_nat.induct)
  case (1 n)
  show ?case
  proof (cases "n < 10")
    case True
    then show ?thesis by (subst str_nat.simps) (simp add: is_digit_digit_char)
  next
    case False
    with 1 show ?thesis by (subst str_nat.simps) (simp add: is_digit_digit_char)
  qed
qed

lemma str_nat_nonempty: "str_nat n \<noteq> []"
  by (subst str_nat.simps) simp

lemma int_digits_digits:
  "list_all is_digit ds \<Longrightarrow> ds \<noteq> [] \<or> prev \<Longrightarrow> int_digits acc prev ds = Some (dec_val acc ds)"
  by (induction ds arbitrary: acc prev) (auto simp: dec_val_def)

lemma dec_val_str_nat: "dec_val 0 (str_nat n) = n"
proof (induction n rule: str_nat.induct)
  case (1 n)
  show ?case
  proof (cases "n < 10")
    case True
    then show ?thesis by (subst str_nat.simps) (simp add: dec_val_def digit_val_digit_char)
  next
    case False
    with 1 have "dec_val 0 (str_nat (n div 10)) = n div 10" by simp
    with False show ?thesis
      by (subst str_nat.simps) (simp add: dec_val_def digit_val_digit_char)
  qed
qed

lemma int_digits_str_nat: "int_digits 0 False (str_nat n) = Some n"
  using int_digits_digits [OF str_nat_digits, of n False 0] str_nat_nonempty [of n]
  by (simp add: dec_val_str_nat)


subsection \<open>strip and int of str\<close>

lemma py_strip_no_space: "no_space s \<Longrightarrow> py_strip s = s"
proof -
  assume ns: "no_space s"
  have d: "dropWhile py_isspace t = t" if "no_space t" for t
    using that by (cases t) (auto simp: no_space_def)
  have "no_space (rev s)" using ns by (simp add: no_space_def)
  then show ?thesis using ns by (simp add: py_strip_def d)
qed

lemma no_space_digits: "list_all is_digit s \<Longrightarrow> no_space s"
  by (induction s) (auto simp: no_space_def is_digit_not_space)

lemma minus_not_space: "\<not> py_isspace (CHR ''-'')"
  by (simp add: py_isspace_def)

lemma no_space_py_str: "no_space (py_str i)"
  using no_space_digits [OF str_nat_digits]
  by (simp add: py_str_def no_space_def minus_not_space)

lemma py_str_nonempty: "py_str i \<noteq> []"
  by (simp add: py_str_def str_nat_nonempty)

lemma digit_not_sign: "is_digit c \<Longrightarrow> c \<noteq> CHR ''-'' \<and> c \<noteq> CHR ''+''"
  by (auto simp: is_digit_def)

lemma length_str_nat: "0 < k \<Longrightarrow> n < 10 ^ k \<Longrightarrow> length (str_nat n) \<le> k"
proof (induction n arbitrary: k rule: str_nat.induct)
  case (1 n)
  show ?case
  proof (cases "n < 10")
    case True
    then show ?thesis using 1(2) by (subst str_nat.simps) simp
  next
    case False
    obtain j where k: "k = Suc j" using 1(2) by (cases k) auto
    have "0 < j" using False 1(3) by (cases j) (simp_all add: k)
    moreover have "n < 10 ^ j * 10" using 1(3) by (simp add: k)
    then have "n div 10 < 10 ^ j" by (rule less_mult_imp_div_less)
    ultimately have "length (str_nat (n div 10)) \<le> j" using 1(1) [OF False, of j] by simp
    then show ?thesis using False by (subst str_nat.simps) (simp add: k)
  qed
qed

lemma filter_digits: "list_all is_digit ds \<Longrightarrow> filter is_digit ds = ds"
  by (induction ds) auto

lemma int_literal_digits:
  "list_all is_digit ds \<Longrightarrow> ds \<noteq> [] \<Longrightarrow>
     int_literal ds = (if max_str_digits < length ds then None else Some (dec_val 0 ds))"
  by (simp add: int_literal_def int_digits_digits filter_digits)

lemma int_literal_str_nat: "n < 10 ^ max_str_digits \<Longrightarrow> int_literal (str_nat n) = Some n"
proof -
  assume n: "n < 10 ^ max_str_digits"
  have "0 < max_str_digits" by (simp add: max_str_digits_def)
  then have "length (str_nat n) \<le> max_str_digits" using n by (rule length_str_nat)
  then show ?thesis
    by (simp add: int_literal_digits str_nat_digits str_nat_nonempty dec_val_str_nat)
qed

lemma py_int_str_nat: "n < 10 ^ max_str_digits \<Longrightarrow> py_int (str_nat n) = Inr (int n)"
proof -
  assume n: "n < 10 ^ max_str_digits"
  obtain c cs where s: "str_nat n = c # cs"
    using str_nat_nonempty [of n] by (cases "str_nat n") auto
  have "is_digit c" using str_nat_digits [of n] by (simp add: s)
  then have c: "c \<noteq> CHR ''-''" "c \<noteq> CHR ''+''" using digit_not_sign by auto
  have "py_strip (str_nat n) = c # cs"
    using py_strip_no_space [OF no_space_digits [OF str_nat_digits], of n] by (simp add: s)
  moreover have "int_literal (c # cs) = Some n"
    using int_literal_str_nat [OF n] by (simp add: s)
  ultimately show ?thesis using c by (simp add: py_int_def)
qed

lemma py_int_py_str: "\<bar>i\<bar> < 10 ^ max_str_digits \<Longrightarrow> py_int (py_str i) = Inr i"
proof (cases "i < 0")
  case True
  assume i: "\<bar>i\<bar> < 10 ^ max_str_digits"
  have "int (nat (- i)) < int (10 ^ max_str_digits)" using i True by simp
  then have n: "nat (- i) < 10 ^ max_str_digits" by (simp only: of_nat_less_iff)
  have "py_strip (py_str i) = CHR ''-'' # str_nat (nat (- i))"
    using py_strip_no_space [OF no_space_py_str, of i] True by (simp add: py_str_def)
  then show ?thesis using True by (simp add: py_int_def int_literal_str_nat [OF n])
next
  case False
  assume i: "\<bar>i\<bar> < 10 ^ max_str_digits"
  have "int (nat i) < int (10 ^ max_str_digits)" using i False by simp
  then have n: "nat i < 10 ^ max_str_digits" by (simp only: of_nat_less_iff)
  show ?thesis using False by (simp add: py_str_def py_int_str_nat [OF n])
qed

lemma map_int_map_py_str:
  "list_all (\<lambda>v. \<bar>v\<bar> < 10 ^ max_str_digits) vs \<Longrightarrow> map_int (map py_str vs) = Inr vs"
  by (induction vs) (simp_all add: py_int_py_str)

subsection \<open>split and join\<close>

lemma split_ws_token:
  "no_space t \<Longrightarrow> split_ws cur (t @ rest) = split_ws (rev t @ cur) rest"
  by (induction t arbitrary: cur) (auto simp: no_space_def)

lemma split_ws_spaces:
  "list_all py_isspace ws \<Longrightarrow> split_ws cur ws = (if cur = [] then [] else [rev cur])"
  by (induction ws arbitrary: cur) auto

lemma split_ws_trailing:
  "list_all py_isspace ws \<Longrightarrow> split_ws cur (s @ ws) = split_ws cur s"
  by (induction s arbitrary: cur) (auto simp: split_ws_spaces)

lemma split_ws_leading: "split_ws [] (dropWhile py_isspace s) = split_ws [] s"
  by (induction s) auto

lemma py_split_py_strip: "py_split (py_strip s) = py_split s"
proof -
  let ?t = "dropWhile py_isspace s"
  have "?t = rev (dropWhile py_isspace (rev ?t)) @ rev (takeWhile py_isspace (rev ?t))"
    by (metis rev_append rev_rev_ident takeWhile_dropWhile_id)
  moreover have "list_all py_isspace (rev (takeWhile py_isspace (rev ?t)))"
    by (simp add: list_all_iff) (meson set_takeWhileD)
  ultimately have "split_ws [] ?t = split_ws [] (py_strip s)"
    using split_ws_trailing [of "rev (takeWhile py_isspace (rev ?t))" "[]" "py_strip s"]
    by (simp add: py_strip_def)
  then show ?thesis by (simp add: py_split_def split_ws_leading)
qed

lemma space_is_space: "py_isspace (CHR '' '')"
  by (simp add: py_isspace_def)

lemma LF_is_space: "py_isspace LF"
  by (simp add: py_isspace_def)

lemma py_split_join:
  "list_all token ts \<Longrightarrow> list_all py_isspace ws \<Longrightarrow> py_split (py_join '' '' ts @ ws) = ts"
proof (induction "'' ''" ts rule: py_join.induct)
  case 1
  then show ?case by (simp add: py_split_def split_ws_spaces)
next
  case (2 t)
  then show ?case
    by (simp add: py_split_def token_def split_ws_token split_ws_spaces)
next
  case (3 t u ts)
  then have "py_split (py_join '' '' (u # ts) @ ws) = u # ts" by simp
  with 3 show ?case
    by (simp add: py_split_def token_def split_ws_token space_is_space)
qed

lemma token_py_str: "token (py_str i)"
  by (simp add: token_def py_str_nonempty no_space_py_str)

lemma py_split_line:
  "py_split (py_strip (py_join '' '' (map py_str vs) @ [LF])) = map py_str vs"
  by (simp add: py_split_py_strip py_split_join list_all_iff token_py_str LF_is_space)


subsection \<open>Lines\<close>

lemma set_py_join: "set (py_join sep ts) \<subseteq> set sep \<union> \<Union> (set ` set ts)"
  by (induction sep ts rule: py_join.induct) auto

lemma digit_not_newline: "is_digit c \<Longrightarrow> c \<noteq> LF \<and> c \<noteq> CR"
  by (auto simp: is_digit_def)

lemma py_str_no_newline: "LF \<notin> set (py_str i) \<and> CR \<notin> set (py_str i)"
  using str_nat_digits [of "nat (- i)"] str_nat_digits [of "nat i"] digit_not_newline
  by (auto simp: py_str_def list_all_iff)

lemma row_body_no_newline:
  "LF \<notin> set (py_join '' '' (map py_str vs)) \<and> CR \<notin> set (py_join '' '' (map py_str vs))"
  using set_py_join [of "'' ''" "map py_str vs"] py_str_no_newline by auto

lemma readline_line: "LF \<notin> set l \<Longrightarrow> readline (l @ LF # rest) = (l @ [LF], rest)"
  by (induction l) auto

lemma readline_row_line: "readline (row_line vs @ rest) = (row_line vs, rest)"
  using readline_line [of "py_join '' '' (map py_str vs)" rest] row_body_no_newline [of vs]
  by (simp add: row_line_def)

lemma row_line_nonempty: "row_line vs @ rest \<noteq> []"
  by (simp add: row_line_def)

lemma file_lines_rows: "file_lines (concat (map row_line rows)) = map row_line rows"
proof (induction rows)
  case Nil
  show ?case by (simp add: file_lines.simps)
next
  case (Cons vs rows)
  let ?rest = "concat (map row_line rows)"
  have "file_lines (row_line vs @ ?rest) =
        fst (readline (row_line vs @ ?rest)) # file_lines (snd (readline (row_line vs @ ?rest)))"
    by (subst file_lines.simps) (simp only: row_line_nonempty if_False)
  then have "file_lines (row_line vs @ ?rest) = row_line vs # file_lines ?rest"
    by (simp only: readline_row_line fst_conv snd_conv)
  with Cons show ?case by simp
qed

lemma universal_newlines_id: "CR \<notin> set s \<Longrightarrow> universal_newlines s = s"
  by (induction s rule: universal_newlines.induct) auto

lemma row_line_no_CR: "CR \<notin> set (row_line vs)"
  using row_body_no_newline [of vs] by (simp add: row_line_def)

lemma plaintext_matrix_no_CR: "CR \<notin> set (plaintext_matrix h w c rows)"
  using row_line_no_CR by (auto simp: plaintext_matrix_def)

lemma py_split_row_line: "py_split (py_strip (row_line vs)) = map py_str vs"
  using py_split_line [of vs] by (simp add: row_line_def)

lemma read_pixels_loop:
  "list_all (list_all (\<lambda>v. \<bar>v\<bar> < 10 ^ max_str_digits)) rows \<Longrightarrow>
   for_loop (map row_line rows)
     (\<lambda>line pixels. case map_int (py_split (py_strip line)) of
                       Inl e \<Rightarrow> Inl e | Inr vals \<Rightarrow> Inr (pixels @ vals)) acc
   = Inr (acc @ concat rows)"
  by (induction rows arbitrary: acc) (simp_all add: py_split_row_line map_int_map_py_str)

lemma read_pixels_rows:
  "list_all (list_all (\<lambda>v. \<bar>v\<bar> < 10 ^ max_str_digits)) rows \<Longrightarrow>
   read_pixels (concat (map row_line rows)) = Inr (concat rows)"
  using read_pixels_loop [of rows "[]"] by (simp add: read_pixels_def file_lines_rows)

lemma read_header_row_line:
  assumes "\<bar>h\<bar> < 10 ^ max_str_digits" "\<bar>w\<bar> < 10 ^ max_str_digits" "\<bar>c\<bar> < 10 ^ max_str_digits"
  shows "read_header (row_line [h, w, c]) = Header_ok h w c"
proof -
  have "map_int (map py_str [h, w, c]) = Inr [h, w, c]"
    using assms by (intro map_int_map_py_str) simp
  then show ?thesis by (simp add: read_header_def py_split_row_line)
qed

lemma convert_to_img_plaintext_matrix:
  assumes "\<bar>h\<bar> < 10 ^ max_str_digits" "\<bar>w\<bar> < 10 ^ max_str_digits" "\<bar>c\<bar> < 10 ^ max_str_digits"
    and "list_all (list_all (\<lambda>v. \<bar>v\<bar> < 10 ^ max_str_digits)) rows"
  shows "convert_to_img (plaintext_matrix h w c rows) =
     Image_data (int (length (concat rows)) \<noteq> w * h) w h (concat rows)"
  by (simp add: convert_to_img_def universal_newlines_id [OF plaintext_matrix_no_CR])
     (simp add: plaintext_matrix_def readline_row_line read_header_row_line [OF assms(1-3)]
        read_pixels_rows [OF assms(4)])

subsection \<open>convert\_to\_txt\<close>

lemma foldl_write_rows:
  "foldl (\<lambda>f row. f @ py_join '' '' (map py_str row) @ [LF]) header rows =
     header @ concat (map row_line rows)"
  by (induction rows arbitrary: header) (simp_all add: row_line_def)

lemma py_str_1: "py_str 1 = ''1''"
  by code_simp

lemma header_text: "py_str h @ '' '' @ py_str w @ '' 1'' @ [LF] = row_line [h, w, 1]"
  by (simp add: row_line_def py_str_1)

lemma pixel_rows_width_0: "pixel_rows i 0 ps = []"
  by (subst pixel_rows.simps) simp

lemma concat_pixel_rows: "0 < w \<Longrightarrow> concat (pixel_rows i w ps) = drop i ps"
proof (induction i w ps rule: pixel_rows.induct)
  case (1 i width pixels)
  show ?case
  proof (cases "length pixels \<le> i")
    case True
    then show ?thesis by (subst pixel_rows.simps) simp
  next
    case False
    with 1 have "concat (pixel_rows (i + width) width pixels) = drop (i + width) pixels"
      by simp
    moreover have "take width (drop i pixels) @ drop (i + width) pixels = drop i pixels"
      by (metis add.commute append_take_drop_id drop_drop)
    ultimately show ?thesis using False 1(2) by (subst pixel_rows.simps) simp
  qed
qed

lemma file_text_convert_to_txt:
  "file_text (convert_to_txt img) =
     plaintext_matrix (int (img_height img)) (int (img_width img)) 1
       (pixel_rows 0 (img_width img) (img_data img))"
proof -
  have h: "py_str (int (img_height img)) @ '' '' @ py_str (int (img_width img)) @ '' 1'' @ [LF]
           = row_line [int (img_height img), int (img_width img), 1]"
    by (rule header_text)
  show ?thesis
    unfolding convert_to_txt_def Let_def h foldl_write_rows plaintext_matrix_def
    by (cases "img_width img = 0") (simp_all add: pixel_rows_width_0)
qed

lemma concat_pixel_rows_0:
  "length ps = w * h \<Longrightarrow> concat (pixel_rows 0 w ps) = ps"
  by (cases "w = 0") (simp_all add: concat_pixel_rows pixel_rows_width_0)

subsection \<open>Tokens of a file\<close>


lemma split_ws_eq_Nil: "split_ws cur s = [] \<longleftrightarrow> cur = [] \<and> list_all py_isspace s"
  by (induction s arbitrary: cur) auto

lemma py_split_eq_Nil: "py_split s = [] \<longleftrightarrow> list_all py_isspace s"
  by (simp add: py_split_def split_ws_eq_Nil)

lemma py_strip_eq_Nil: "py_strip s = [] \<longleftrightarrow> list_all py_isspace s"
proof -
  have "set s = set (takeWhile py_isspace s) \<union> set (dropWhile py_isspace s)"
    by (metis set_append takeWhile_dropWhile_id)
  moreover have "\<forall>x \<in> set (takeWhile py_isspace s). py_isspace x"
    by (meson set_takeWhileD)
  ultimately have "(\<forall>x \<in> set (dropWhile py_isspace s). py_isspace x) \<longleftrightarrow>
                   (\<forall>x \<in> set s. py_isspace x)"
    by blast
  then show ?thesis
    by (simp add: py_strip_def dropWhile_eq_Nil_conv list_all_iff)
qed









lemma py_int_error: "py_int t = Inl e \<Longrightarrow> e = ValueError"
  by (cases e) (auto simp: py_int_def split: list.splits option.splits if_splits)

lemma map_int_error: "map_int ts = Inl e \<Longrightarrow> e = ValueError"
  by (induction ts arbitrary: e) (auto dest: py_int_error split: sum.splits)

lemma map_int_Inl_iff:
  "(\<exists>e. map_int ts = Inl e) \<longleftrightarrow> (\<exists>t \<in> set ts. py_int t = Inl ValueError)"
proof (induction ts)
  case Nil
  show ?case by simp
next
  case (Cons t ts)
  show ?case
  proof (cases "py_int t")
    case (Inl e)
    then have "py_int t = Inl ValueError" using py_int_error by blast
    then show ?thesis by simp
  next
    case (Inr v)
    with Cons show ?thesis by (auto split: sum.splits)
  qed
qed

lemma map_int_length: "map_int ts = Inr vs \<Longrightarrow> length vs = length ts"
  by (induction ts arbitrary: vs) (auto split: sum.splits)

section \<open>Loops\<close>


lemma and_then_Inr [simp]: "and_then (Inr v) f = f v"
  by (simp add: and_then_def)

lemma and_then_Inl [simp]: "and_then (Inl e) f = Inl e"
  by (simp add: and_then_def)

lemma for_loop_append:
  "for_loop (xs @ ys) body s = and_then (for_loop xs body s) (for_loop ys body)"
  by (induction xs arbitrary: s) (auto split: sum.splits)

lemma for_loop_pure:
  "(\<And>x s. x \<in> set xs \<Longrightarrow> body x s = Inr (step x s)) \<Longrightarrow>
   for_loop xs body s = Inr (foldl (\<lambda>s x. step x s) s xs)"
  by (induction xs arbitrary: s) auto

lemma for_loop_invariant:
  "I s \<Longrightarrow> (\<And>x s. x \<in> set xs \<Longrightarrow> I s \<Longrightarrow> \<exists>s'. body x s = Inr s' \<and> I s') \<Longrightarrow>
   \<exists>s'. for_loop xs body s = Inr s' \<and> I s'"
proof (induction xs arbitrary: s)
  case Nil
  then show ?case by simp
next
  case (Cons x xs)
  from Cons.prems obtain s1 where s1: "body x s = Inr s1" "I s1" by (meson list.set_intros(1))
  have "\<exists>s'. for_loop xs body s1 = Inr s' \<and> I s'"
    by (rule Cons.IH [OF s1(2)]) (simp add: Cons.prems(2))
  then show ?case by (simp add: s1)
qed

lemma for_loop_safe:
  "for_loop xs body s = Inr s' \<Longrightarrow> I s \<Longrightarrow>
   (\<And>x s s'. x \<in> set xs \<Longrightarrow> I s \<Longrightarrow> body x s = Inr s' \<Longrightarrow> I s') \<Longrightarrow> I s'"
proof (induction xs arbitrary: s)
  case Nil
  then show ?case by simp
next
  case (Cons x xs)
  from Cons.prems(1) obtain s1 where s1: "body x s = Inr s1" "for_loop xs body s1 = Inr s'"
    by (auto split: sum.splits)
  have "I s1" using Cons.prems(3) [of x s s1] Cons.prems(2) s1(1) by simp
  show ?case
    by (rule Cons.IH [OF s1(2) \<open>I s1\<close>]) (use Cons.prems(3) in auto)
qed

lemma foldl_snoc_map: "foldl (\<lambda>row x. row @ [f x]) row0 xs = row0 @ map f xs"
  by (induction xs arbitrary: row0) auto

lemma foldl_snoc_concat: "foldl (\<lambda>f y. f @ g y) f0 ys = f0 @ concat (map g ys)"
  by (induction ys arbitrary: f0) auto

lemma row_loop:
  assumes "\<And>x row. x \<in> set xs \<Longrightarrow> body x row = Inr (row @ [py_str (v x)])"
  shows "for_loop xs body row0 = Inr (row0 @ map py_str (map v xs))"
  using for_loop_pure [of xs body "\<lambda>x row. row @ [py_str (v x)]" row0] assms
  by (simp add: foldl_snoc_map)

lemma file_loop:
  assumes "\<And>y f. y \<in> set ys \<Longrightarrow> body y f = Inr (f @ row_line (vals y))"
  shows "for_loop ys body f0 = Inr (f0 @ concat (map row_line (map vals ys)))"
  using for_loop_pure [of ys body "\<lambda>y f. f @ row_line (vals y)" f0] assms
  by (simp add: foldl_snoc_concat comp_def)

lemma text_generator:
  assumes "\<And>y x row. y < nat h \<Longrightarrow> x < nat w \<Longrightarrow> pixel y x row = Inr (row @ [py_str (v y x)])"
  shows "for_loop (py_range h)
           (\<lambda>y f. and_then (for_loop (py_range w) (pixel y) [])
                     (\<lambda>row. Inr (f @ py_join '' '' row @ [LF])))
           (py_str h @ '' '' @ py_str w @ '' 1'' @ [LF])
         = Inr (plaintext_matrix h w 1 (grid h w v))"
proof -
  have row: "for_loop [0..<nat w] (pixel y) [] = Inr (map (\<lambda>x. py_str (v y x)) [0..<nat w])"
    if "y < nat h" for y
    using row_loop [of "[0..<nat w]" "pixel y" "v y" "[]"] assms [OF that]
    by (simp add: comp_def)
  have "for_loop (py_range h)
           (\<lambda>y f. and_then (for_loop (py_range w) (pixel y) [])
                     (\<lambda>row. Inr (f @ py_join '' '' row @ [LF])))
           (row_line [h, w, 1])
        = Inr (row_line [h, w, 1] @ concat (map row_line (map (\<lambda>y. map (v y) [0..<nat w]) (py_range h))))"
    by (rule file_loop) (simp add: py_range_def row row_line_def comp_def)
  then show ?thesis
    unfolding header_text plaintext_matrix_def grid_def by (simp add: py_range_def)
qed

lemma create_checkerboard_image_text:
  assumes "block_size \<noteq> 0"
  shows "create_checkerboard_image h w block_size =
           Inr (plaintext_matrix h w 1
                  (grid h w (\<lambda>y x. if even (int x div block_size + int y div block_size)
                                     then 200 else 50)))"
  unfolding create_checkerboard_image_def
  by (rule text_generator) (simp add: assms Let_def even_iff_mod_2_eq_zero)


lemma create_gradient_image_text:
  "create_gradient_image h w =
     Inr (plaintext_matrix h w 1
            (grid h w (\<lambda>y x. if int x mod 50 < 5 then 255 - gradient_value w x
                               else gradient_value w x)))"
  unfolding create_gradient_image_def
  by (rule text_generator) (auto simp: py_truediv_def Let_def gradient_value_def)

subsection \<open>Pixel loops over an array\<close>

lemma np_column_loop:
  assumes "\<And>x img. x < w \<Longrightarrow> nrows img = h \<Longrightarrow> ncols img = w \<Longrightarrow>
             body x img = Inr (img\<lparr>cell := (cell img)(y := (cell img y)(x := v x))\<rparr>)"
    and "nrows img = h" and "ncols img = w" and "k \<le> w"
  shows "for_loop [0..<k] body img =
           Inr (img\<lparr>cell := (\<lambda>y' x. if y' = y \<and> x < k then v x else cell img y' x)\<rparr>)"
  using assms(4)
proof (induction k)
  case 0
  show ?case by simp
next
  case (Suc k)
  let ?img = "img\<lparr>cell := (\<lambda>y' x. if y' = y \<and> x < k then v x else cell img y' x)\<rparr>"
  have "for_loop [0..<k] body img = Inr ?img" using Suc by simp
  moreover have "body k ?img = Inr (?img\<lparr>cell := (cell ?img)(y := (cell ?img y)(k := v k))\<rparr>)"
    using Suc.prems assms(2,3) by (intro assms(1)) auto
  moreover have "?img\<lparr>cell := (cell ?img)(y := (cell ?img y)(k := v k))\<rparr>
               = img\<lparr>cell := (\<lambda>y' x. if y' = y \<and> x < Suc k then v x else cell img y' x)\<rparr>"
    by (auto simp: fun_eq_iff less_Suc_eq)
  ultimately show ?case by (simp add: for_loop_append)
qed

lemma np_pixel_loops:
  assumes "\<And>y x img. y < h \<Longrightarrow> x < w \<Longrightarrow> nrows img = h \<Longrightarrow> ncols img = w \<Longrightarrow>
             body y x img = Inr (img\<lparr>cell := (cell img)(y := (cell img y)(x := v y x))\<rparr>)"
    and "nrows img = h" and "ncols img = w" and "k \<le> h"
  shows "for_loop [0..<k] (\<lambda>y. for_loop [0..<w] (body y)) img =
           Inr (img\<lparr>cell := (\<lambda>y x. if y < k \<and> x < w then v y x else cell img y x)\<rparr>)"
  using assms(4)
proof (induction k)
  case 0
  show ?case by simp
next
  case (Suc k)
  let ?img = "img\<lparr>cell := (\<lambda>y x. if y < k \<and> x < w then v y x else cell img y x)\<rparr>"
  have "for_loop [0..<k] (\<lambda>y. for_loop [0..<w] (body y)) img = Inr ?img"
    using Suc by simp
  moreover have "for_loop [0..<w] (body k) ?img =
      Inr (?img\<lparr>cell := (\<lambda>y' x. if y' = k \<and> x < w then v k x else cell ?img y' x)\<rparr>)"
    using Suc.prems assms(2,3)
    by (intro np_column_loop [where h = h and w = w] assms(1)) auto
  moreover have "?img\<lparr>cell := (\<lambda>y' x. if y' = k \<and> x < w then v k x else cell ?img y' x)\<rparr>
               = img\<lparr>cell := (\<lambda>y x. if y < Suc k \<and> x < w then v y x else cell img y x)\<rparr>"
    by (auto simp: fun_eq_iff less_Suc_eq)
  ultimately show ?case by (simp add: for_loop_append)
qed

lemma to_uint8_in_range: "0 \<le> v \<Longrightarrow> v \<le> 255 \<Longrightarrow> to_uint8 v = Inr (word_of_int v)"
  by (simp add: to_uint8_def)

lemma generate_checkerboard_image_array:
  assumes "0 \<le> width" "0 \<le> height" "block_size \<noteq> 0"
    and "0 \<le> dark" "dark \<le> 255" "0 \<le> bright" "bright \<le> 255"
  shows "generate_checkerboard_image width height block_size dark bright =
           Inr \<lparr>nrows = nat height, ncols = nat width,
                cell = (\<lambda>y x. if y < nat height \<and> x < nat width
                               then (if even (int x div block_size + int y div block_size)
                                     then word_of_int dark else word_of_int bright)
                               else 0)\<rparr>"
proof -
  let ?img0 = "\<lparr>nrows = nat height, ncols = nat width, cell = (\<lambda>y x. 0 :: 8 word)\<rparr>"
  let ?v = "\<lambda>y x. if even (int x div block_size + int y div block_size)
                   then word_of_int dark else (word_of_int bright :: 8 word)"
  define body where "body = (\<lambda>(y :: nat) (x :: nat) img.
              if block_size = 0 then Inl ZeroDivisionError
              else
                let block_y = int y div block_size;
                    block_x = int x div block_size
                in if (block_x + block_y) mod 2 = 0
                   then np_setitem img y x dark
                   else np_setitem img y x bright)"
  have eq: "generate_checkerboard_image width height block_size dark bright =
              for_loop [0..<nat height] (\<lambda>y. for_loop [0..<nat width] (body y)) ?img0"
    using assms(1,2)
    by (simp add: generate_checkerboard_image_def np_zeros_def py_range_def body_def)
  have "for_loop [0..<nat height] (\<lambda>y. for_loop [0..<nat width] (body y)) ?img0
        = Inr (?img0\<lparr>cell := (\<lambda>y x. if y < nat height \<and> x < nat width then ?v y x
                                       else cell ?img0 y x)\<rparr>)"
    by (rule np_pixel_loops [where h = "nat height" and w = "nat width"])
       (auto simp: body_def assms np_setitem_def to_uint8_in_range Let_def even_iff_mod_2_eq_zero)
  then show ?thesis unfolding eq by (simp add: fun_eq_iff)
qed

section \<open>The shapes generator\<close>


lemma randint_ok:
  "a \<le> b \<Longrightarrow> \<exists>v. randint a b g = Inr (v, next_rng g) \<and> a \<le> v \<and> v \<le> b"
proof -
  assume ab: "a \<le> b"
  have pos: "0 < b - a + 1" using ab by simp
  have m: "0 \<le> g 0 mod (b - a + 1)" "g 0 mod (b - a + 1) < b - a + 1"
    using pos by (rule pos_mod_sign, rule pos_mod_bound)
  have "a \<le> a + g 0 mod (b - a + 1)" and "a + g 0 mod (b - a + 1) \<le> b"
    using m by linarith+
  then show ?thesis using ab by (simp add: randint_def)
qed

lemma randint_empty: "b < a \<Longrightarrow> randint a b g = Inl ValueError"
  by (simp add: randint_def)

lemma py_index_ok: "0 \<le> i \<Longrightarrow> i < int n \<Longrightarrow> py_index n i = Inr (nat i)"
  by (simp add: py_index_def)

lemma setitem2_ok:
  assumes "shape_grid h w pixels" "0 \<le> y" "y < h" "0 \<le> x" "x < w" "150 \<le> val" "val \<le> 250"
  shows "\<exists>p. setitem2 pixels y x val = Inr p \<and> shape_grid h w p"
proof -
  have len: "length pixels = nat h" and rows: "\<forall>row \<in> set pixels. length row = nat w"
    using assms(1) by (auto simp: shape_grid_def)
  have y: "nat y < length pixels" using assms(2,3) len by simp
  then have row: "pixels ! nat y \<in> set pixels" by simp
  then have lrow: "length (pixels ! nat y) = nat w" using rows by blast
  let ?row = "(pixels ! nat y)[nat x := val]"
  have eq: "setitem2 pixels y x val = Inr (pixels[nat y := ?row])"
    using assms(2-5) len lrow by (simp add: setitem2_def py_index_ok)
  have "\<forall>v \<in> set ?row. v = 50 \<or> (150 \<le> v \<and> v \<le> 250)"
  proof
    fix v assume "v \<in> set ?row"
    then have "v = val \<or> v \<in> set (pixels ! nat y)"
      using set_update_subset_insert [of "pixels ! nat y" "nat x" val] by auto
    then show "v = 50 \<or> (150 \<le> v \<and> v \<le> 250)"
      using assms(1,6,7) row by (auto simp: shape_grid_def)
  qed
  moreover have "length ?row = nat w" using lrow by simp
  ultimately have "shape_grid h w (pixels[nat y := ?row])"
    using assms(1) set_update_subset_insert [of pixels "nat y" ?row]
    by (auto simp: shape_grid_def)
  then show ?thesis using eq by simp
qed

lemma set_py_range2: "set (py_range2 a b) = {a..<b}"
  by (auto simp: py_range2_def)

lemma fill_loops_ok:
  assumes "shape_grid h w pixels" "0 \<le> a" "b \<le> h" "0 \<le> c" "d \<le> w" "150 \<le> val" "val \<le> 250"
    and "\<And>y x p. y \<in> set (py_range2 a b) \<Longrightarrow> x \<in> set (py_range2 c d) \<Longrightarrow>
           body y x p = setitem2 p y x val \<or> body y x p = Inr p"
  shows "\<exists>p. for_loop (py_range2 a b) (\<lambda>y. for_loop (py_range2 c d) (body y)) pixels = Inr p
             \<and> shape_grid h w p"
proof (rule for_loop_invariant [where I = "shape_grid h w", OF assms(1)])
  fix y p
  assume y: "y \<in> set (py_range2 a b)" and p: "shape_grid h w p"
  show "\<exists>p'. for_loop (py_range2 c d) (body y) p = Inr p' \<and> shape_grid h w p'"
  proof (rule for_loop_invariant [where I = "shape_grid h w", OF p])
    fix x q
    assume x: "x \<in> set (py_range2 c d)" and q: "shape_grid h w q"
    have "0 \<le> y" "y < h" "0 \<le> x" "x < w"
      using x y assms(2-5) by (auto simp: set_py_range2)
    then have "\<exists>p'. setitem2 q y x val = Inr p' \<and> shape_grid h w p'"
      using setitem2_ok [OF q] assms(6,7) by blast
    then show "\<exists>p'. body y x q = Inr p' \<and> shape_grid h w p'"
      using assms(8) [OF y x, of q] q by auto
  qed
qed

lemma fill_rectangle_ok:
  assumes "100 \<le> h" "100 \<le> w" "shape_grid h w pixels"
  shows "\<exists>p g'. fill_rectangle h w (pixels, g) = Inr (p, g') \<and> shape_grid h w p"
proof -
  obtain rx g1 where rx: "randint 0 (w - 100) g = Inr (rx, g1)" "0 \<le> rx"
    using randint_ok [of 0 "w - 100" g] assms(2) by auto
  obtain ry g2 where ry: "randint 0 (h - 100) g1 = Inr (ry, g2)" "0 \<le> ry"
    using randint_ok [of 0 "h - 100" g1] assms(1) by auto
  obtain rw g3 where rw: "randint 30 100 g2 = Inr (rw, g3)"
    using randint_ok [of 30 100 g2] by auto
  obtain rh g4 where rh: "randint 30 100 g3 = Inr (rh, g4)"
    using randint_ok [of 30 100 g3] by auto
  obtain val g5 where val: "randint 150 250 g4 = Inr (val, g5)" "150 \<le> val" "val \<le> 250"
    using randint_ok [of 150 250 g4] by auto
  have "\<exists>p. for_loop (py_range2 ry (min (ry + rh) h))
               (\<lambda>y. for_loop (py_range2 rx (min (rx + rw) w))
                  (\<lambda>x pixels. setitem2 pixels y x val)) pixels = Inr p \<and> shape_grid h w p"
    by (rule fill_loops_ok [OF assms(3) ry(2) _ rx(2) _ val(2,3)]) auto
  then show ?thesis
    by (auto simp: fill_rectangle_def rx ry rw rh val)
qed

lemma fill_circle_ok:
  assumes "100 \<le> h" "100 \<le> w" "shape_grid h w pixels"
  shows "\<exists>p g'. fill_circle h w (pixels, g) = Inr (p, g') \<and> shape_grid h w p"
proof -
  obtain cx g1 where cx: "randint 50 (w - 50) g = Inr (cx, g1)"
    using randint_ok [of 50 "w - 50" g] assms(2) by auto
  obtain cy g2 where cy: "randint 50 (h - 50) g1 = Inr (cy, g2)"
    using randint_ok [of 50 "h - 50" g1] assms(1) by auto
  obtain r g3 where r: "randint 20 50 g2 = Inr (r, g3)"
    using randint_ok [of 20 50 g2] by auto
  obtain val g4 where val: "randint 150 250 g3 = Inr (val, g4)" "150 \<le> val" "val \<le> 250"
    using randint_ok [of 150 250 g3] by auto
  have "\<exists>p. for_loop (py_range2 (max 0 (cy - r)) (min h (cy + r + 1)))
               (\<lambda>y. for_loop (py_range2 (max 0 (cx - r)) (min w (cx + r + 1)))
                  (\<lambda>x pixels.
                     if (x - cx) ^ 2 + (y - cy) ^ 2 \<le> r ^ 2 then setitem2 pixels y x val
                     else Inr pixels)) pixels = Inr p \<and> shape_grid h w p"
    by (rule fill_loops_ok [OF assms(3) _ _ _ _ val(2,3)]) auto
  then show ?thesis
    by (auto simp: fill_circle_def cx cy r val)
qed

lemma shape_grid_background: "shape_grid h w (replicate (nat h) (replicate (nat w) 50))"
  by (auto simp: shape_grid_def)

lemma create_shapes_image_ok:
  assumes "100 \<le> h" "100 \<le> w"
  shows "\<exists>rows. create_shapes_image h w g = Inr (plaintext_matrix h w 1 rows) \<and>
                shape_grid h w rows"
proof -
  let ?I = "\<lambda>s. shape_grid h w (fst s)"
  have "\<exists>s. for_loop (py_range 5) (\<lambda>_. fill_rectangle h w)
               (replicate (nat h) (replicate (nat w) 50), g) = Inr s \<and> ?I s"
  proof (rule for_loop_invariant [where I = ?I])
    show "?I (replicate (nat h) (replicate (nat w) 50), g)"
      by (simp add: shape_grid_background)
  next
    fix x :: nat and s :: "int list list \<times> rng"
    assume "?I s"
    then show "\<exists>s'. fill_rectangle h w s = Inr s' \<and> ?I s'"
      using fill_rectangle_ok [OF assms, of "fst s" "snd s"] by auto
  qed
  then obtain s1 where s1: "for_loop (py_range 5) (\<lambda>_. fill_rectangle h w)
               (replicate (nat h) (replicate (nat w) 50), g) = Inr s1" "?I s1"
    by blast
  have "\<exists>s. for_loop (py_range 3) (\<lambda>_. fill_circle h w) s1 = Inr s \<and> ?I s"
  proof (rule for_loop_invariant [where I = ?I, OF s1(2)])
    fix x :: nat and s :: "int list list \<times> rng"
    assume "?I s"
    then show "\<exists>s'. fill_circle h w s = Inr s' \<and> ?I s'"
      using fill_circle_ok [OF assms, of "fst s" "snd s"] by auto
  qed
  then obtain p g' where s2: "for_loop (py_range 3) (\<lambda>_. fill_circle h w) s1 = Inr (p, g')"
    "shape_grid h w p"
    by auto
  have "create_shapes_image h w g = Inr (plaintext_matrix h w 1 p)"
    unfolding create_shapes_image_def header_text foldl_write_rows
    by (simp add: s1 s2 plaintext_matrix_def)
  then show ?thesis using s2(2) by blast
qed

lemma py_range_Suc: "0 < n \<Longrightarrow> py_range n = 0 # map Suc (py_range (n - 1))"
  by (simp add: py_range_def upt_conv_Cons map_Suc_upt Suc_nat_eq_nat_zadd1 nat_diff_distrib')

lemma create_shapes_image_small:
  assumes "h < 100 \<or> w < 100"
  shows "create_shapes_image h w g = Inl ValueError"
proof -
  have "fill_rectangle h w (pixels, g) = Inl ValueError" for pixels
  proof (cases "w < 100")
    case True
    then show ?thesis by (simp add: fill_rectangle_def randint_empty)
  next
    case False
    then obtain rx g1 where rx: "randint 0 (w - 100) g = Inr (rx, g1)"
      using randint_ok [of 0 "w - 100" g] by auto
    from False assms have "h < 100" by simp
    then show ?thesis by (simp add: fill_rectangle_def rx randint_empty)
  qed
  then show ?thesis
    by (simp add: create_shapes_image_def py_range_Suc [of 5])
qed

text \<open>
  C10.  For every height and width of at least 100 and every sequence of random draws,
  \<open>create_shapes_image\<close> succeeds and writes a single-channel file of \<open>h\<close> rows of
  \<open>w\<close> values, each 50 or within \<open>150..250\<close>.  With a height or a width below 100 the
  first rectangle's position is drawn from an empty range: the call raises
  \<open>ValueError\<close> in the drawing stage, before the file is opened.
\<close>

theorem create_shapes_image_minimum_size:
  "(100 \<le> h \<and> 100 \<le> w \<longrightarrow>
      (\<exists>rows. create_shapes_image h w g = Inr (plaintext_matrix h w 1 rows) \<and>
              shape_grid h w rows)) \<and>
   (h < 100 \<or> w < 100 \<longrightarrow> create_shapes_image h w g = Inl ValueError)"
  using create_shapes_image_ok [of h w g] create_shapes_image_small [of h w g] by blast

theorem create_shapes_image_minimum_size_witness:
  "(\<exists>rows. create_shapes_image 100 120 (\<lambda>n. 7 * int n) = Inr (plaintext_matrix 100 120 1 rows) \<and>
           shape_grid 100 120 rows) \<and>
   create_shapes_image 99 120 (\<lambda>n. 7 * int n) = Inl ValueError \<and>
   create_shapes_image 100 99 (\<lambda>n. 7 * int n) = Inl ValueError"
  using create_shapes_image_minimum_size [of 100 120 "\<lambda>n. 7 * int n"]
    create_shapes_image_minimum_size [of 99 120 "\<lambda>n. 7 * int n"]
    create_shapes_image_minimum_size [of 100 99 "\<lambda>n. 7 * int n"]
  by simp

section \<open>Rounding\<close>


lemma round_even_floor_le: "\<lfloor>x\<rfloor> \<le> round_even x"
  by (simp add: round_even_def Let_def)

lemma round_even_le_floor_Suc: "round_even x \<le> \<lfloor>x\<rfloor> + 1"
  by (simp add: round_even_def Let_def)

lemma round_even_le: "x \<le> of_int N \<Longrightarrow> round_even x \<le> N"
proof -
  assume le: "x \<le> of_int N"
  then have f: "\<lfloor>x\<rfloor> \<le> N" by (simp add: floor_le_iff)
  show ?thesis
  proof (cases "\<lfloor>x\<rfloor> = N")
    case True
    then have "x = of_int N" using le by (metis of_int_floor_le order_antisym)
    then show ?thesis by (simp add: round_even_def)
  next
    case False
    then show ?thesis using f round_even_le_floor_Suc [of x] by linarith
  qed
qed

lemma round_even_ge: "of_int N \<le> x \<Longrightarrow> N \<le> round_even x"
proof -
  assume "of_int N \<le> x"
  then have "N \<le> \<lfloor>x\<rfloor>" by (simp add: le_floor_iff)
  then show ?thesis using round_even_floor_le [of x] by linarith
qed

lemma round_even_error: "\<bar>of_int (round_even x) - x\<bar> \<le> 1 / 2"
proof -
  have "of_int \<lfloor>x\<rfloor> \<le> x" "x < of_int \<lfloor>x\<rfloor> + 1" by linarith+
  then show ?thesis by (auto simp: round_even_def Let_def)
qed

lemma ilog2_lower:
  assumes "0 < r"
  shows "2 powi (ilog2 r) \<le> r"
proof -
  obtain a b where q: "quotient_of r = (a, b)" by (cases "quotient_of r")
  have b: "0 < b" using q quotient_of_denom_pos by blast
  have r: "r = of_int a / of_int b" using q by (rule quotient_of_div)
  have a: "0 < a" using assms b r by (simp add: zero_less_divide_iff)
  let ?k = "bitlen a - bitlen b"
  show ?thesis
  proof (cases "2 powi ?k \<le> r")
    case True
    then show ?thesis by (simp add: ilog2_def q Let_def)
  next
    case False
    have la: "2 ^ nat (bitlen a - 1) \<le> a" using bitlen_bounds [OF a] by simp
    have lb: "b < 2 ^ nat (bitlen b)" using bitlen_bounds [OF b] by simp
    have a1: "1 \<le> bitlen a" using a by (simp add: bitlen_alt_def)
    have b1: "1 \<le> bitlen b" using b by (simp add: bitlen_alt_def)
    have "(2::rat) powi (?k - 1) = 2 powi (bitlen a - 1) / 2 powi (bitlen b)"
      by (simp add: power_int_diff)
    also have "\<dots> = 2 ^ nat (bitlen a - 1) / 2 ^ nat (bitlen b)"
      using a1 b1 by (simp add: power_int_def)
    also have "\<dots> \<le> of_int a / of_int b"
    proof -
      have "(2::rat) ^ nat (bitlen a - 1) \<le> of_int a"
        using la by (metis of_int_le_iff of_int_numeral of_int_power)
      moreover have "(of_int b :: rat) \<le> 2 ^ nat (bitlen b)"
        using lb by (metis less_imp_le of_int_le_iff of_int_numeral of_int_power)
      moreover have "(0::rat) < of_int b" using b by simp
      moreover have "(0::rat) \<le> 2 ^ nat (bitlen a - 1)" by simp
      ultimately show ?thesis using a by (intro frac_le) auto
    qed
    finally have "2 powi (?k - 1) \<le> r" by (simp add: r)
    then show ?thesis using False by (simp add: ilog2_def q Let_def)
  qed
qed

lemma round_to_nonneg: "0 \<le> r \<Longrightarrow> 0 \<le> round_to p r"
proof -
  assume r: "0 \<le> r"
  have "0 \<le> round_even (r / 2 powi e)" for e
    by (rule round_even_ge) (simp add: r)
  then show ?thesis by (simp add: round_to_def Let_def)
qed

lemma exponent_nonpos:
  assumes "0 < r" "r < 2 ^ p" "0 < p"
  shows "ilog2 r - (int p - 1) \<le> 0"
proof (rule ccontr)
  assume "\<not> ilog2 r - (int p - 1) \<le> 0"
  then have "int p \<le> ilog2 r" by simp
  then have "(2::rat) powi (int p) \<le> 2 powi (ilog2 r)"
    by (intro power_int_increasing) auto
  then have "(2::rat) ^ p \<le> r" using ilog2_lower [OF assms(1)] by simp
  then show False using assms(2) by simp
qed

lemma round_to_le_int:
  assumes "0 \<le> r" "r \<le> of_int n" "n < 2 ^ p" "0 < p"
  shows "round_to p r \<le> of_int n"
proof (cases "r = 0")
  case True
  then show ?thesis using assms by (simp add: round_to_def)
next
  case False
  then have r: "0 < r" using assms(1) by simp
  have "r < 2 ^ p"
  proof -
    have "(of_int n :: rat) < 2 ^ p"
      using assms(3) by (metis of_int_less_iff of_int_numeral of_int_power)
    then show ?thesis using assms(2) by linarith
  qed
  then have e: "ilog2 r - (int p - 1) \<le> 0" using exponent_nonpos r assms(4) by blast
  define m where "m = nat (- (ilog2 r - (int p - 1)))"
  have pw: "(2::rat) powi (ilog2 r - (int p - 1)) = 1 / 2 ^ m"
    using e by (simp add: m_def power_int_def field_simps)
  have "r / (1 / 2 ^ m) \<le> of_int (n * 2 ^ m)"
    using assms(2) by (simp add: field_simps)
  then have "round_even (r / (1 / 2 ^ m)) \<le> n * 2 ^ m" by (rule round_even_le)
  then have "(of_int (round_even (r / (1 / 2 ^ m))) :: rat) \<le> of_int (n * 2 ^ m)"
    by (simp only: of_int_le_iff)
  then have "of_int (round_even (r / (1 / 2 ^ m))) * (1 / 2 ^ m) \<le> (of_int n :: rat)"
    by (simp add: field_simps)
  then show ?thesis using r by (simp add: round_to_def Let_def pw)
qed

lemma py_trunc_range: "0 \<le> r \<Longrightarrow> r \<le> of_int n \<Longrightarrow> 0 \<le> py_trunc r \<and> py_trunc r \<le> n"
  by (simp add: py_trunc_def floor_le_iff le_floor_iff)

lemma gradient_value_range:
  assumes "x < nat w"
  shows "0 \<le> gradient_value w x \<and> gradient_value w x \<le> 255"
proof -
  have w: "0 < w" and xw: "int x < w" using assms by auto
  let ?q = "fl (of_int (int x) / of_int w)"
  have q0: "0 \<le> ?q" unfolding fl_def using w by (intro round_to_nonneg) simp
  have "(of_int (int x) :: rat) / of_int w \<le> of_int 1" using w xw by simp
  then have q1: "?q \<le> of_int 1"
    unfolding fl_def using w by (intro round_to_le_int) simp_all
  have s: "0 \<le> ?q * 255" "?q * 255 \<le> of_int 255" using q0 q1 by simp_all
  have "0 \<le> fl (?q * 255)" using s(1) unfolding fl_def by (rule round_to_nonneg)
  moreover have "fl (?q * 255) \<le> of_int 255"
    using s unfolding fl_def by (rule round_to_le_int) simp_all
  ultimately show ?thesis unfolding gradient_value_def by (rule py_trunc_range)
qed

subsection \<open>The error of one rounding\<close>

lemma ilog2_upper:
  assumes "0 < r"
  shows "r < 2 powi (ilog2 r + 1)"
proof -
  obtain a b where q: "quotient_of r = (a, b)" by (cases "quotient_of r")
  have b: "0 < b" using q quotient_of_denom_pos by blast
  have r: "r = of_int a / of_int b" using q by (rule quotient_of_div)
  have a: "0 < a" using assms b r by (simp add: zero_less_divide_iff)
  let ?k = "bitlen a - bitlen b"
  have la: "a < 2 ^ nat (bitlen a)" using bitlen_bounds [OF a] by simp
  have lb: "2 ^ nat (bitlen b - 1) \<le> b" using bitlen_bounds [OF b] by simp
  have a1: "1 \<le> bitlen a" using a by (simp add: bitlen_alt_def)
  have b1: "1 \<le> bitlen b" using b by (simp add: bitlen_alt_def)
  have "of_int a / of_int b < (2::rat) ^ nat (bitlen a) / 2 ^ nat (bitlen b - 1)"
  proof -
    have "(of_int a :: rat) < 2 ^ nat (bitlen a)"
      using la by (metis of_int_less_iff of_int_numeral of_int_power)
    moreover have "(2::rat) ^ nat (bitlen b - 1) \<le> of_int b"
      using lb by (metis of_int_le_iff of_int_numeral of_int_power)
    moreover have "(0::rat) < 2 ^ nat (bitlen b - 1)" by simp
    moreover have "(0::rat) < of_int a" using a by simp
    ultimately show ?thesis by (intro frac_less) auto
  qed
  also have "\<dots> = 2 powi (bitlen a) / 2 powi (bitlen b - 1)"
    using a1 b1 by (simp add: power_int_def)
  also have "\<dots> = 2 powi (bitlen a - (bitlen b - 1))"
    by (simp add: power_int_diff)
  also have "bitlen a - (bitlen b - 1) = ?k + 1" by simp
  finally have up: "r < 2 powi (?k + 1)" by (simp add: r)
  show ?thesis
  proof (cases "2 powi ?k \<le> r")
    case True
    then show ?thesis using up by (simp add: ilog2_def q Let_def)
  next
    case False
    then show ?thesis by (simp add: ilog2_def q Let_def)
  qed
qed

lemma powi_less_cancel: "(2::rat) powi a < 2 powi b \<Longrightarrow> a < b"
proof (rule ccontr)
  assume lt: "(2::rat) powi a < 2 powi b" and "\<not> a < b"
  then have "b \<le> a" by simp
  then have "(2::rat) powi b \<le> 2 powi a" by (intro power_int_increasing) auto
  then show False using lt by simp
qed

lemma ilog2_ge: "0 < r \<Longrightarrow> 2 powi k \<le> r \<Longrightarrow> k \<le> ilog2 r"
proof -
  assume "0 < r" and "2 powi k \<le> r"
  then have "(2::rat) powi k < 2 powi (ilog2 r + 1)" using ilog2_upper [of r] by simp
  then show ?thesis using powi_less_cancel by fastforce
qed

lemma ilog2_less: "0 < r \<Longrightarrow> r < 2 powi k \<Longrightarrow> ilog2 r < k"
proof -
  assume "0 < r" and "r < 2 powi k"
  then have "(2::rat) powi (ilog2 r) < 2 powi k" using ilog2_lower [of r] by simp
  then show ?thesis by (rule powi_less_cancel)
qed

lemma round_even_near:
  assumes "\<bar>x - of_int N\<bar> < 1 / 2"
  shows "round_even x = N"
proof (cases "of_int N \<le> x")
  case True
  have lt: "x - of_int N < 1 / 2" using assms by linarith
  then have "x < of_int N + 1" by linarith
  with True have "\<lfloor>x\<rfloor> = N" by (intro floor_unique) auto
  then show ?thesis using lt by (simp add: round_even_def Let_def)
next
  case False
  have gt: "of_int N - 1 / 2 < x" using assms by linarith
  then have "of_int (N - 1) \<le> x" "x < of_int (N - 1) + 1" using False by simp_all
  then have f: "\<lfloor>x\<rfloor> = N - 1" by (intro floor_unique) auto
  have "1 / 2 < x - of_int (N - 1)" using gt by simp
  then show ?thesis using f by (simp add: round_even_def Let_def)
qed

lemma round_to_half_ulp:
  assumes "0 < r"
  shows "\<bar>round_to p r - r\<bar> \<le> 2 powi (ilog2 r - int p)"
proof -
  define e where "e = ilog2 r - (int p - 1)"
  have pe: "(0::rat) < 2 powi e" by simp
  have "\<bar>of_int (round_even (r / 2 powi e)) - r / 2 powi e\<bar> \<le> 1 / 2"
    by (rule round_even_error)
  then have "\<bar>of_int (round_even (r / 2 powi e)) - r / 2 powi e\<bar> * 2 powi e \<le> 1 / 2 * 2 powi e"
    using pe by (intro mult_right_mono) auto
  moreover have "\<bar>of_int (round_even (r / 2 powi e)) - r / 2 powi e\<bar> * 2 powi e
        = \<bar>of_int (round_even (r / 2 powi e)) * 2 powi e - r\<bar>"
  proof -
    have "\<bar>of_int (round_even (r / 2 powi e)) - r / 2 powi e\<bar> * 2 powi e
        = \<bar>(of_int (round_even (r / 2 powi e)) - r / 2 powi e) * 2 powi e\<bar>"
      using pe by (simp add: abs_mult)
    also have "(of_int (round_even (r / 2 powi e)) - r / 2 powi e) * 2 powi e
        = of_int (round_even (r / 2 powi e)) * 2 powi e - r"
      using pe by (simp add: field_simps)
    finally show ?thesis .
  qed
  moreover have "1 / 2 * (2::rat) powi e = 2 powi (ilog2 r - int p)"
  proof -
    have "(2::rat) powi e = 2 powi (ilog2 r - int p + 1)" by (simp add: e_def algebra_simps)
    also have "\<dots> = 2 powi (ilog2 r - int p) * 2" by (simp add: power_int_add)
    finally show ?thesis by simp
  qed
  moreover have "round_to p r = of_int (round_even (r / 2 powi e)) * 2 powi e"
    using assms by (simp add: round_to_def Let_def e_def)
  ultimately show ?thesis by simp
qed

lemma round_to_rel_error:
  assumes "0 < r"
  shows "\<bar>round_to p r - r\<bar> \<le> r / 2 ^ p"
proof -
  have "(2::rat) powi (ilog2 r - int p) = 2 powi (ilog2 r) / 2 ^ p"
    by (simp add: power_int_diff)
  also have "\<dots> \<le> r / 2 ^ p"
    using ilog2_lower [OF assms] by (intro divide_right_mono) auto
  finally show ?thesis using round_to_half_ulp [OF assms, of p] by linarith
qed

lemma round_to_near_int:
  assumes "0 < t" "ilog2 t \<le> 52" "\<bar>t - of_int n\<bar> * 2 powi (52 - ilog2 t) < 1 / 2"
  shows "round_to 53 t = of_int n"
proof -
  define m where "m = nat (52 - ilog2 t)"
  have pw: "(2::rat) powi (52 - ilog2 t) = 2 ^ m" using assms(2) by (simp add: m_def power_int_def)
  have pe: "(2::rat) powi (ilog2 t - 52) = 1 / 2 ^ m"
    using assms(2) by (simp add: m_def power_int_def field_simps)
  have "\<bar>t * 2 ^ m - of_int (n * 2 ^ m)\<bar> = \<bar>t - of_int n\<bar> * 2 ^ m"
  proof -
    have "t * 2 ^ m - of_int (n * 2 ^ m) = (t - of_int n) * 2 ^ m" by (simp add: algebra_simps)
    then show ?thesis by (simp add: abs_mult)
  qed
  then have "\<bar>t * 2 ^ m - of_int (n * 2 ^ m)\<bar> < 1 / 2" using assms(3) pw by simp
  then have "round_even (t * 2 ^ m) = n * 2 ^ m" by (rule round_even_near)
  then have "round_to 53 t = of_int (n * 2 ^ m) * (1 / 2 ^ m)"
    using assms(1) by (simp add: round_to_def Let_def pe)
  then show ?thesis by simp
qed

subsection \<open>Truncated quotients\<close>

lemma py_trunc_floor: "of_int q \<le> r \<Longrightarrow> r < of_int q + 1 \<Longrightarrow> 0 \<le> q \<Longrightarrow> py_trunc r = q"
proof -
  assume a: "of_int q \<le> r" "r < of_int q + 1" "0 \<le> q"
  then have "\<lfloor>r\<rfloor> = q" by (intro floor_unique) auto
  moreover have "0 \<le> r" using a by (meson of_int_0_le_iff order_trans)
  ultimately show ?thesis by (simp add: py_trunc_def)
qed

lemma round_to_ge_int:
  assumes "of_int n \<le> r" "0 \<le> n" "r < 2 ^ p" "0 < p"
  shows "of_int n \<le> round_to p r"
proof (cases "r = 0")
  case True
  then show ?thesis using assms by (simp add: round_to_def)
next
  case False
  have "(0 :: rat) \<le> of_int n" using assms(2) by simp
  then have "0 \<le> r" using assms(1) by linarith
  with False have r: "0 < r" by simp
  have e: "ilog2 r - (int p - 1) \<le> 0" using exponent_nonpos r assms(3,4) by blast
  define m where "m = nat (- (ilog2 r - (int p - 1)))"
  have pw: "(2::rat) powi (ilog2 r - (int p - 1)) = 1 / 2 ^ m"
    using e by (simp add: m_def power_int_def field_simps)
  have "of_int (n * 2 ^ m) \<le> r / (1 / 2 ^ m)"
    using assms(1) by (simp add: field_simps)
  then have "n * 2 ^ m \<le> round_even (r / (1 / 2 ^ m))" by (rule round_even_ge)
  then have "(of_int (n * 2 ^ m) :: rat) \<le> of_int (round_even (r / (1 / 2 ^ m)))"
    by (simp only: of_int_le_iff)
  then have "(of_int n :: rat) \<le> of_int (round_even (r / (1 / 2 ^ m))) * (1 / 2 ^ m)"
    by (simp add: field_simps)
  then show ?thesis using r by (simp add: round_to_def Let_def pw)
qed

text \<open>One rounding: \<open>int(a / b)\<close> is the floor quotient.\<close>

lemma trunc_truediv:
  assumes "0 \<le> a" "0 < b" "a < 2 ^ 53"
  shows "py_trunc (fl (of_int a / of_int b)) = a div b"
proof (cases "a = 0")
  case True
  then show ?thesis by (simp add: fl_def round_to_def py_trunc_def)
next
  case False
  define r :: rat where "r = of_int a / of_int b"
  define q where "q = a div b"
  have a: "0 < a" using assms(1) False by simp
  have r0: "0 < r" using a assms(2) by (simp add: r_def)
  have q0: "0 \<le> q" using assms by (simp add: q_def pos_imp_zdiv_nonneg_iff)
  have fq: "\<lfloor>r\<rfloor> = q" by (simp add: r_def q_def floor_divide_of_int_eq)
  then have lo: "of_int q \<le> r" by (metis of_int_floor_le)
  have "a = q * b + a mod b" by (simp add: q_def)
  moreover have "a mod b < b" using assms(2) by simp
  ultimately have "a \<le> q * b + (b - 1)" by linarith
  then have "(of_int a :: rat) \<le> of_int (q * b + (b - 1))" by (simp only: of_int_le_iff)
  then have "(of_int a :: rat) \<le> (of_int q + 1) * of_int b - 1" by (simp add: algebra_simps)
  then have hi: "r \<le> of_int q + 1 - 1 / of_int b"
    using assms(2) by (simp add: r_def field_simps)
  have "(of_int a :: rat) < 2 ^ 53"
    using assms(3) by (metis of_int_less_iff of_int_numeral of_int_power)
  then have small: "r / 2 ^ 53 < 1 / of_int b"
    using assms(2) by (simp add: r_def field_simps)
  have rb: "r < 2 ^ 53"
  proof -
    have "r \<le> of_int a" using a assms(2) by (simp add: r_def field_simps mult_le_cancel_left1)
    then show ?thesis using \<open>(of_int a :: rat) < 2 ^ 53\<close> by linarith
  qed
  have "\<bar>fl r - r\<bar> \<le> r / 2 ^ 53" unfolding fl_def by (rule round_to_rel_error [OF r0])
  then have "fl r < of_int q + 1" using hi small by linarith
  moreover have "of_int q \<le> fl r"
    unfolding fl_def using lo q0 rb by (intro round_to_ge_int) simp_all
  ultimately have "py_trunc (fl r) = q" using q0 by (intro py_trunc_floor) auto
  then show ?thesis by (simp add: r_def q_def)
qed

subsection \<open>The gradient expressions\<close>

text \<open>Two roundings, \<open>int((x / w) * 255)\<close>, when \<open>w\<close> does not divide \<open>255 * x\<close>.\<close>

lemma gradient_inexact:
  assumes "0 \<le> x" "x < w" "w \<le> 2 ^ 44" "(255 * x) mod w \<noteq> 0"
  shows "py_trunc (fl (fl (of_int x / of_int w) * 255)) = (255 * x) div w"
proof -
  define r :: rat where "r = of_int x / of_int w"
  define q where "q = (255 * x) div w"
  define m where "m = (255 * x) mod w"
  define u :: rat where "u = 1 / 2 ^ 53"
  have w: "0 < w" using assms(1,2) by simp
  have x: "0 < x" using assms(1,4) by (cases "x = 0") auto
  have r0: "0 < r" and r1: "r < 1" using x w assms(2) by (simp_all add: r_def)
  have q0: "0 \<le> q" using assms(1) w by (simp add: q_def pos_imp_zdiv_nonneg_iff)
  have "0 \<le> m" "m < w" "m \<noteq> 0"
    using assms(4) w pos_mod_sign [of w "255 * x"] pos_mod_bound [of w "255 * x"]
    unfolding m_def by blast+
  then have m1: "1 \<le> m" "m \<le> w - 1" by linarith+
  have "255 * x = q * w + m" by (simp add: q_def m_def)
  then have "(of_int (255 * x) :: rat) = of_int q * of_int w + of_int m"
    by (metis of_int_add of_int_mult)
  then have "255 * r = (of_int q * of_int w + of_int m) / of_int w"
    by (simp add: r_def)
  also have "\<dots> = of_int q + of_int m / of_int w"
    using w by (simp add: add_divide_distrib)
  finally have eq: "255 * r = of_int q + of_int m / of_int w" .
  have wi: "(512 :: rat) * u \<le> 1 / of_int w"
  proof -
    have "(of_int w :: rat) \<le> 2 ^ 44"
      using assms(3) by (metis of_int_le_iff of_int_numeral of_int_power)
    then have "1 / (2 :: rat) ^ 44 \<le> 1 / of_int w"
      using w by (intro divide_left_mono) auto
    then show ?thesis by (simp add: u_def)
  qed
  have lo: "of_int q + 1 / of_int w \<le> 255 * r"
  proof -
    have "(1 :: rat) / of_int w \<le> of_int m / of_int w"
      using m1(1) w by (intro divide_right_mono) auto
    then show ?thesis using eq by simp
  qed
  have hi: "255 * r \<le> of_int q + 1 - 1 / of_int w"
  proof -
    have "(of_int m :: rat) \<le> of_int w - 1" using m1(2) by (metis of_int_1 of_int_diff of_int_le_iff)
    then have "(of_int m :: rat) / of_int w \<le> (of_int w - 1) / of_int w"
      using w by (intro divide_right_mono) auto
    also have "\<dots> = 1 - 1 / of_int w" using w by (simp add: field_simps)
    finally show ?thesis using eq by simp
  qed
  define r1 where "r1 = fl r"
  have e1: "\<bar>r1 - r\<bar> \<le> u"
  proof -
    have "\<bar>r1 - r\<bar> \<le> r / 2 ^ 53" unfolding r1_def fl_def by (rule round_to_rel_error [OF r0])
    also have "\<dots> \<le> 1 / 2 ^ 53" using r1 by (intro divide_right_mono) auto
    finally show ?thesis by (simp add: u_def)
  qed
  define t where "t = r1 * 255"
  have et: "\<bar>t - 255 * r\<bar> \<le> 255 * u" using e1 by (simp add: t_def)
  have u0: "0 < u" by (simp add: u_def)
  have qr: "(0 :: rat) \<le> of_int q" using q0 by simp
  have t0: "0 < t" using et lo wi qr u0 by linarith
  have us: "255 * u \<le> 1" by (simp add: u_def)
  have t255: "t \<le> 256" using et us r1 by linarith
  have e2: "\<bar>fl t - t\<bar> \<le> 256 * u"
  proof -
    have "\<bar>fl t - t\<bar> \<le> t / 2 ^ 53" unfolding fl_def by (rule round_to_rel_error [OF t0])
    also have "\<dots> \<le> 256 / 2 ^ 53" using t255 by (intro divide_right_mono) auto
    finally show ?thesis by (simp add: u_def)
  qed
  have "of_int q \<le> fl t" using e2 et lo wi u0 by linarith
  moreover have "fl t < of_int q + 1" using e2 et hi wi u0 by linarith
  ultimately have "py_trunc (fl t) = q" using q0 by (intro py_trunc_floor) auto
  then show ?thesis by (simp add: t_def r1_def r_def q_def)
qed



text \<open>Two roundings when the quotient is an integer \<open>q\<close>: then \<open>x / w = q / 255\<close>.\<close>

lemma gradient_exact_general:
  assumes "0 < q" "q < 255"
    and "257 * 2 powi (ilog2 (of_int q / 255)) \<le> (of_int q :: rat)"
  shows "fl (fl (of_int q / 255) * 255) = of_int q"
proof -
  define r :: rat where "r = of_int q / 255"
  define K where "K = ilog2 r"
  define t where "t = fl r * 255"
  have r0: "0 < r" using assms(1) by (simp add: r_def)
  have r1: "r < 2 powi 0" using assms(2) by (simp add: r_def)
  have K0: "K < 0" unfolding K_def using r0 r1 by (rule ilog2_less)
  have C: "257 * 2 powi K \<le> (of_int q :: rat)" using assms(3) by (simp add: K_def r_def)
  have h: "(2 :: rat) powi (K - 53) = 2 powi K / 2 ^ 53" by (simp add: power_int_diff)
  have p0: "(0 :: rat) < 2 powi K" by simp
  have e1: "\<bar>fl r - r\<bar> \<le> 2 powi (K - 53)"
    unfolding fl_def K_def using round_to_half_ulp [OF r0, of 53] by simp
  have qe: "of_int q = 255 * r" by (simp add: r_def)
  have et: "\<bar>t - of_int q\<bar> \<le> 255 * 2 powi (K - 53)"
    using e1 unfolding t_def qe by linarith
  have small: "255 * (2 :: rat) powi (K - 53) \<le> 2 powi K" unfolding h using p0 by simp
  have lo: "2 powi (K + 8) \<le> t"
  proof -
    have "(2 :: rat) powi (K + 8) = 256 * 2 powi K" by (simp add: power_int_add)
    then show ?thesis using et C small by linarith
  qed
  have "(0 :: rat) < 2 powi (K + 8)" by simp
  then have t0: "0 < t" using lo by linarith
  define L where "L = ilog2 t"
  have KL: "K + 8 \<le> L" unfolding L_def using t0 lo by (rule ilog2_ge)
  have "(2 :: rat) powi K \<le> 2 powi (- 1)" using K0 by (intro power_int_increasing) auto
  then have k1: "(2 :: rat) powi K \<le> 1" by (simp add: power_int_minus)
  have "(of_int q :: rat) < 255" using assms(2) by simp
  then have "t < 256" using et small k1 by linarith
  moreover have "(256 :: rat) \<le> 2 powi 53" by simp
  ultimately have "t < 2 powi 53" by linarith
  then have "L < 53" unfolding L_def using t0 by (intro ilog2_less)
  then have L52: "L \<le> 52" by simp
  have "\<bar>t - of_int q\<bar> * 2 powi (52 - L) \<le> 255 * 2 powi (K - 53) * 2 powi (52 - L)"
    using et by (intro mult_right_mono) auto
  also have "\<dots> = 255 * 2 powi (K - L - 1)"
    by (simp add: power_int_add [symmetric] algebra_simps)
  also have "\<dots> \<le> 255 * 2 powi (- 9)"
    using KL by (intro mult_left_mono power_int_increasing) auto
  also have "\<dots> < 1 / 2" by (simp add: power_int_minus)
  finally have "\<bar>t - of_int q\<bar> * 2 powi (52 - ilog2 t) < 1 / 2" by (simp add: L_def)
  then have "round_to 53 t = of_int q"
    using t0 L52 unfolding L_def by (intro round_to_near_int)
  then show ?thesis by (simp add: fl_def t_def r_def)
qed


lemma gradient_table_1:
  "list_all (\<lambda>q. list_ex (\<lambda>j. q * 2 ^ (7 - j) < 255 \<and> 257 * 2 ^ j \<le> 256 * q) [0..<8])
     (filter (\<lambda>q. q \<notin> set [1, 2, 4, 8, 16, 32, 64, 128]) [1..254 :: int])"
  by code_simp

lemma gradient_table_2:
  "list_all (\<lambda>q. fl (fl (of_int q / 255) * 255) = of_int q) [1, 2, 4, 8, 16, 32, 64, 128]"
  by code_simp

lemma mantissa_bound:
  assumes "0 < q" "j < 8" "q * 2 ^ (7 - j) < 255" "257 * 2 ^ j \<le> 256 * q"
  shows "257 * 2 powi (ilog2 (of_int q / 255)) \<le> (of_int q :: rat)"
proof -
  define r :: rat where "r = of_int q / 255"
  define k where "k = 7 - j"
  have jk: "int j - 7 = - int k" using assms(2) unfolding k_def by linarith
  have r0: "0 < r" using assms(1) by (simp add: r_def)
  have "(of_int (q * 2 ^ k) :: rat) < of_int 255"
    using assms(3) unfolding k_def by (simp only: of_int_less_iff)
  then have "(of_int q :: rat) * 2 ^ k < 255" by simp
  then have "r < 1 / 2 ^ k" by (simp add: r_def field_simps)
  moreover have "(2 :: rat) powi (int j - 7) = 1 / 2 ^ k"
    unfolding jk by (simp only: power_int_minus power_int_of_nat inverse_eq_divide)
  ultimately have "r < 2 powi (int j - 7)" by simp
  then have "ilog2 r < int j - 7" using r0 by (intro ilog2_less)
  then have "ilog2 r \<le> int j - 8" by simp
  then have "(2 :: rat) powi (ilog2 r) \<le> 2 powi (int j - 8)"
    by (intro power_int_increasing) auto
  also have "(2 :: rat) powi (int j - 8) = 2 ^ j / 256"
    by (simp add: power_int_diff)
  finally have k: "(2 :: rat) powi (ilog2 r) \<le> 2 ^ j / 256" .
  have "(of_int (257 * 2 ^ j) :: rat) \<le> of_int (256 * q)"
    using assms(4) by (simp only: of_int_le_iff)
  then have "(257 :: rat) * 2 ^ j \<le> 256 * of_int q" by simp
  then show ?thesis using k unfolding r_def by linarith
qed

lemma gradient_exact:
  assumes "0 < q" "q < 255"
  shows "fl (fl (of_int q / 255) * 255) = of_int q"
proof (cases "q \<in> set [1, 2, 4, 8, 16, 32, 64, 128]")
  case True
  then show ?thesis using gradient_table_2 unfolding list_all_iff by blast
next
  case False
  have "q \<in> set [1..254]" using assms by simp
  then have "q \<in> set (filter (\<lambda>q. q \<notin> set [1, 2, 4, 8, 16, 32, 64, 128]) [1..254])"
    using False by simp
  then have "list_ex (\<lambda>j. q * 2 ^ (7 - j) < 255 \<and> 257 * 2 ^ j \<le> 256 * q) [0..<8]"
    using gradient_table_1 unfolding list_all_iff by blast
  then obtain j where "j < 8" "q * 2 ^ (7 - j) < 255" "257 * 2 ^ j \<le> 256 * q"
    unfolding list_ex_iff by auto
  then have "257 * 2 powi (ilog2 (of_int q / 255)) \<le> (of_int q :: rat)"
    using assms(1) by (intro mantissa_bound)
  then show ?thesis using assms by (intro gradient_exact_general)
qed

lemma gradient_value_formula:
  assumes "w \<le> 2 ^ 44" "x < nat w"
  shows "gradient_value w x = (255 * int x) div w"
proof (cases "(255 * int x) mod w = 0")
  case False
  have "0 \<le> int x" "int x < w" using assms(2) by auto
  then show ?thesis
    unfolding gradient_value_def using assms(1) False by (intro gradient_inexact)
next
  case True
  define q where "q = (255 * int x) div w"
  have w: "0 < w" and xw: "int x < w" using assms(2) by auto
  have qw: "q * w = 255 * int x"
    using True div_mult_mod_eq [of "255 * int x" w] by (simp add: q_def)
  have q0: "0 \<le> q" using w by (simp add: q_def pos_imp_zdiv_nonneg_iff)
  have q255: "q < 255"
  proof -
    have "q * w < 255 * w" using qw xw by simp
    then show ?thesis using w by simp
  qed
  have "(of_int (q * w) :: rat) = of_int (255 * int x)" using qw by simp
  then have r: "(of_int (int x) :: rat) / of_int w = of_int q / 255"
    using w by (simp add: field_simps)
  show ?thesis
  proof (cases "q = 0")
    case True
    then show ?thesis
      unfolding gradient_value_def r
      by (simp add: q_def [symmetric] fl_def round_to_def py_trunc_def)
  next
    case False
    then have "fl (fl (of_int q / 255) * 255) = of_int q"
      using q0 q255 by (intro gradient_exact) auto
    then show ?thesis
      unfolding gradient_value_def r using q0 by (simp add: py_trunc_def q_def)
  qed
qed

lemma gradient_column_value:
  assumes "2 \<le> width" "width \<le> 2 ^ 44" "x < nat width"
  shows "py_trunc (fl (of_int (255 * int x) / of_int (width - 1))) = (255 * int x) div (width - 1)"
    and "0 \<le> (255 * int x) div (width - 1)" and "(255 * int x) div (width - 1) \<le> 255"
proof -
  have x: "int x \<le> width - 1" using assms(3) by linarith
  have w: "0 < width - 1" using assms(1) by simp
  have "255 * int x < 255 * 2 ^ 44" using x assms(2) by linarith
  also have "\<dots> < (2 :: int) ^ 53" by simp
  finally have b: "255 * int x < 2 ^ 53" .
  show "py_trunc (fl (of_int (255 * int x) / of_int (width - 1))) = (255 * int x) div (width - 1)"
    using w b by (intro trunc_truediv) simp_all
  show "0 \<le> (255 * int x) div (width - 1)"
    using w by (simp add: pos_imp_zdiv_nonneg_iff)
  define d where "d = width - 1"
  have d: "0 < d" "int x \<le> d" using w x by (simp_all add: d_def)
  have "255 * int x \<le> 255 * d" using d by simp
  then have "(255 * int x) div d \<le> (255 * d) div d"
    using d(1) by (intro zdiv_mono1) simp_all
  also have "(255 * d) div d = 255" using d(1) by simp
  finally show "(255 * int x) div (width - 1) \<le> 255" by (simp add: d_def)
qed

lemma generate_gradient_image_columns:
  assumes "2 \<le> width" "width \<le> 2 ^ 44" "k \<le> nat width"
  shows "for_loop [0..<k]
           (\<lambda>x img. and_then (py_truediv (255 * int x) (width - 1)) (\<lambda>q.
              np_assign_scalar img 0 (nrows img) x (Suc x) (py_trunc q)))
           \<lparr>nrows = h, ncols = n, cell = (\<lambda>y x. 0)\<rparr>
         = Inr \<lparr>nrows = h, ncols = n,
                cell = (\<lambda>y x. if y < h \<and> x < k
                               then word_of_int ((255 * int x) div (width - 1)) else 0)\<rparr>"
  using assms(3)
proof (induction k)
  case 0
  show ?case by simp
next
  case (Suc k)
  let ?v = "\<lambda>x. (255 * int x) div (width - 1)"
  let ?img = "\<lparr>nrows = h, ncols = n,
                cell = (\<lambda>y x. if y < h \<and> x < k then word_of_int (?v x) else (0 :: 8 word))\<rparr>"
  have k: "k < nat width" using Suc.prems by simp
  have w: "width - 1 \<noteq> 0" using assms(1) by simp
  have q: "py_trunc (fl (of_int (255 * int k) / of_int (width - 1))) = ?v k"
    by (rule gradient_column_value(1) [OF assms(1,2) k])
  have u: "to_uint8 (?v k) = Inr (word_of_int (?v k))"
    using gradient_column_value(2,3) [OF assms(1,2) k] by (simp add: to_uint8_def)
  have "and_then (py_truediv (255 * int k) (width - 1)) (\<lambda>q.
          np_assign_scalar ?img 0 (nrows ?img) k (Suc k) (py_trunc q))
        = np_assign_scalar ?img 0 h k (Suc k) (?v k)"
    using w q by (simp add: py_truediv_def)
  also have "\<dots> = Inr (np_assign ?img 0 h k (Suc k) (\<lambda>y x. word_of_int (?v k)))"
    by (simp add: np_assign_scalar_def u)
  also have "np_assign ?img 0 h k (Suc k) (\<lambda>y x. word_of_int (?v k))
      = \<lparr>nrows = h, ncols = n,
          cell = (\<lambda>y x. if y < h \<and> x < Suc k then word_of_int (?v x) else 0)\<rparr>"
    by (auto simp: np_assign_def fun_eq_iff less_Suc_eq)
  finally have step: "and_then (py_truediv (255 * int k) (width - 1)) (\<lambda>q.
          np_assign_scalar ?img 0 (nrows ?img) k (Suc k) (py_trunc q))
      = Inr \<lparr>nrows = h, ncols = n,
          cell = (\<lambda>y x. if y < h \<and> x < Suc k then word_of_int (?v x) else 0)\<rparr>" .
  have "for_loop [0..<k]
           (\<lambda>x img. and_then (py_truediv (255 * int x) (width - 1)) (\<lambda>q.
              np_assign_scalar img 0 (nrows img) x (Suc x) (py_trunc q)))
           \<lparr>nrows = h, ncols = n, cell = (\<lambda>y x. 0)\<rparr> = Inr ?img"
    using Suc by simp
  then show ?case using step by (simp add: for_loop_append)
qed

lemma generate_gradient_image_array:
  assumes "2 \<le> width" "width \<le> 2 ^ 44" "0 \<le> height"
  shows "generate_gradient_image width height =
           Inr \<lparr>nrows = nat height, ncols = nat width,
                cell = (\<lambda>y x. if y < nat height \<and> x < nat width
                               then word_of_int ((255 * int x) div (width - 1)) else 0)\<rparr>"
proof -
  have z: "np_zeros height width = Inr \<lparr>nrows = nat height, ncols = nat width, cell = (\<lambda>y x. 0)\<rparr>"
    using assms(1,3) by (simp add: np_zeros_def)
  show ?thesis
    unfolding generate_gradient_image_def z and_then_Inr py_range_def
    by (rule generate_gradient_image_columns [OF assms(1,2)]) simp
qed

lemma generate_gradient_image_width_1:
  "0 \<le> height \<Longrightarrow> generate_gradient_image 1 height = Inl ZeroDivisionError"
  by (simp add: generate_gradient_image_def np_zeros_def py_range_def py_truediv_def)

lemma uint_byte: "0 \<le> v \<Longrightarrow> v \<le> 255 \<Longrightarrow> uint (word_of_int v :: 8 word) = v"
  by (simp add: uint_word_of_int take_bit_int_eq_self)

lemma grid_cong: "(\<And>y x. x < nat w \<Longrightarrow> f y x = g y x) \<Longrightarrow> grid h w f = grid h w g"
  by (simp add: grid_def)

lemma create_gradient_image_formula:
  assumes "w \<le> 2 ^ 44"
  shows "create_gradient_image h w =
     Inr (plaintext_matrix h w 1
            (grid h w (\<lambda>y x. if int x mod 50 < 5 then 255 - (255 * int x) div w
                               else (255 * int x) div w)))"
proof -
  have "grid h w (\<lambda>y x. if int x mod 50 < 5 then 255 - gradient_value w x else gradient_value w x)
      = grid h w (\<lambda>y x. if int x mod 50 < 5 then 255 - (255 * int x) div w else (255 * int x) div w)"
    by (rule grid_cong) (simp add: gradient_value_formula [OF assms])
  then show ?thesis by (simp only: create_gradient_image_text)
qed

lemma floor_gradient_mono:
  "0 < w \<Longrightarrow> x \<le> x' \<Longrightarrow> (255 * int x) div w \<le> (255 * int x') div w"
  by (intro zdiv_mono1) simp_all

section \<open>The generators\<close>


lemma loop_accumulates:
  assumes "\<And>x s s'. x \<in> set xs \<Longrightarrow> body x s = Inr s' \<Longrightarrow> \<exists>v. proj s' = proj s @ emit v \<and> P v"
    and "for_loop xs body s0 = Inr s'"
  shows "\<exists>vs. proj s' = proj s0 @ concat (map emit vs) \<and> length vs = length xs \<and> list_all P vs"
  using assms
proof (induction xs arbitrary: s0)
  case Nil
  then show ?case by simp
next
  case (Cons x xs)
  from Cons.prems(2) obtain s1 where s1: "body x s0 = Inr s1" "for_loop xs body s1 = Inr s'"
    by (auto split: sum.splits)
  obtain v where v: "proj s1 = proj s0 @ emit v" "P v"
    using Cons.prems(1) [of x s0 s1] s1(1) by auto
  have "\<exists>vs. proj s' = proj s1 @ concat (map emit vs) \<and> length vs = length xs \<and> list_all P vs"
    by (rule Cons.IH [OF _ s1(2)]) (use Cons.prems(1) in auto)
  then obtain vs where vs: "proj s' = proj s1 @ concat (map emit vs)" "length vs = length xs"
    "list_all P vs" by blast
  show ?case
    by (rule exI [of _ "v # vs"]) (simp add: v vs)
qed

lemma loop_total:
  assumes "\<And>x s. x \<in> set xs \<Longrightarrow> \<exists>s'. body x s = Inr s'"
  shows "\<exists>s'. for_loop xs body s0 = Inr s'"
  using for_loop_invariant [of "\<lambda>s. True" s0 xs body] assms by auto

subsection \<open>The noisy generators\<close>

lemma noisy_pixel:
  "\<exists>noise g'. (case s of (row, g) \<Rightarrow>
          let base = noisy_base y x
          in and_then (randint (- 20) 20 g) (\<lambda>(noise, g).
               let val = max 0 (min 255 (base + noise))
               in Inr (row @ [py_str val], g)))
        = Inr (fst s @ [py_str (max 0 (min 255 (noisy_base y x + noise)))], g')"
proof -
  obtain row g0 where s: "s = (row, g0)" by (cases s)
  obtain noise g1 where n: "randint (- 20) 20 g0 = Inr (noise, g1)"
    using randint_ok [of "- 20" 20 g0] by auto
  show ?thesis unfolding s Let_def by (intro exI [of _ noise] exI [of _ g1]) (simp add: n)
qed

lemma noisy_edges_row_ok:
  "\<exists>vs g'. noisy_edges_row w y g = Inr (map py_str vs, g') \<and> length vs = nat w \<and>
            list_all (\<lambda>v. 0 \<le> v \<and> v \<le> 255) vs"
proof -
  define body where "body = (\<lambda>(x :: nat) (row :: string list, g :: rng).
          let base = noisy_base y x
          in and_then (randint (- 20) 20 g) (\<lambda>(noise, g).
               let val = max 0 (min 255 (base + noise))
               in Inr (row @ [py_str val], g)))"
  have step: "\<exists>noise g'. body x s = Inr (fst s @ [py_str (max 0 (min 255 (noisy_base y x + noise)))], g')"
    for x s
    unfolding body_def by (rule noisy_pixel)
  have "\<exists>s'. for_loop (py_range w) body ([], g) = Inr s'"
    by (rule loop_total) (use step in blast)
  then obtain s' where s': "for_loop (py_range w) body ([], g) = Inr s'" by blast
  have "\<exists>vs. fst s' = fst ([] :: string list, g) @ concat (map (\<lambda>v. [py_str v]) vs) \<and>
              length vs = length (py_range w) \<and> list_all (\<lambda>v. 0 \<le> v \<and> v \<le> (255::int)) vs"
  proof (rule loop_accumulates [OF _ s'])
    fix x :: nat and s t :: "string list \<times> rng"
    assume b: "body x s = Inr t"
    obtain noise g' where "body x s = Inr (fst s @ [py_str (max 0 (min 255 (noisy_base y x + noise)))], g')"
      using step by blast
    then have "fst t = fst s @ [py_str (max 0 (min 255 (noisy_base y x + noise)))]"
      using b by simp
    then show "\<exists>v. fst t = fst s @ [py_str v] \<and> 0 \<le> v \<and> v \<le> 255"
      by (intro exI [of _ "max 0 (min 255 (noisy_base y x + noise))"]) simp
  qed
  then obtain vs where vs: "fst s' = map py_str vs" "length vs = nat w"
    "list_all (\<lambda>v. 0 \<le> v \<and> v \<le> 255) vs"
    by (auto simp: py_range_def comp_def)
  have "noisy_edges_row w y g = Inr (map py_str vs, snd s')"
    unfolding noisy_edges_row_def body_def [symmetric] using s' vs(1) by (cases s') simp
  then show ?thesis using vs(2,3) by blast
qed

lemma create_noisy_edges_image_text:
  "\<exists>rows. create_noisy_edges_image h w g = Inr (plaintext_matrix h w 1 rows) \<and>
          length rows = nat h \<and>
          list_all (\<lambda>row. length row = nat w \<and> list_all (\<lambda>v. 0 \<le> v \<and> v \<le> 255) row) rows"
proof -
  define body where "body = (\<lambda>(y :: nat) (f :: string, g).
       and_then (noisy_edges_row w y g) (\<lambda>(row, g). Inr (f @ py_join '' '' row @ [LF], g)))"
  have def: "create_noisy_edges_image h w g =
        and_then (for_loop (py_range h) body (row_line [h, w, 1], g)) (\<lambda>(f, g). Inr f)"
    unfolding create_noisy_edges_image_def header_text body_def by (rule refl)
  have step: "\<exists>vs g'. body y s = Inr (fst s @ row_line vs, g') \<and> length vs = nat w \<and>
                list_all (\<lambda>v. 0 \<le> v \<and> v \<le> 255) vs" for y s
  proof -
    obtain f g0 where s: "s = (f, g0)" by (cases s)
    obtain vs g' where r: "noisy_edges_row w y g0 = Inr (map py_str vs, g')" "length vs = nat w"
      "list_all (\<lambda>v. 0 \<le> v \<and> v \<le> 255) vs"
      using noisy_edges_row_ok [of w y g0] by blast
    have "body y s = Inr (fst s @ row_line vs, g')"
      by (simp add: body_def s r(1) row_line_def)
    then show ?thesis using r(2,3) by blast
  qed
  have "\<exists>s'. for_loop (py_range h) body (row_line [h, w, 1], g) = Inr s'"
    by (rule loop_total) (use step in blast)
  then obtain s' where s': "for_loop (py_range h) body (row_line [h, w, 1], g) = Inr s'"
    by blast
  have "\<exists>rows. fst s' = fst (row_line [h, w, 1], g) @ concat (map row_line rows) \<and>
          length rows = length (py_range h) \<and>
          list_all (\<lambda>row. length row = nat w \<and> list_all (\<lambda>v. 0 \<le> v \<and> v \<le> 255) row) rows"
  proof (rule loop_accumulates [OF _ s'])
    fix y :: nat and s t :: "string \<times> rng"
    assume b: "body y s = Inr t"
    obtain vs g' where "body y s = Inr (fst s @ row_line vs, g')" "length vs = nat w"
                "list_all (\<lambda>v. 0 \<le> v \<and> v \<le> 255) vs"
      using step by blast
    then show "\<exists>v. fst t = fst s @ row_line v \<and>
              (length v = nat w \<and> list_all (\<lambda>v. 0 \<le> v \<and> v \<le> 255) v)"
      using b by (intro exI [of _ vs]) simp
  qed
  then obtain rows where rows: "fst s' = row_line [h, w, 1] @ concat (map row_line rows)"
    "length rows = nat h"
    "list_all (\<lambda>row. length row = nat w \<and> list_all (\<lambda>v. 0 \<le> v \<and> v \<le> 255) row) rows"
    by (auto simp: py_range_def)
  have "create_noisy_edges_image h w g = Inr (plaintext_matrix h w 1 rows)"
    by (cases s') (use rows(1) in \<open>simp add: def s' plaintext_matrix_def\<close>)
  then show ?thesis using rows(2,3) by blast
qed


subsection \<open>The bimodal generator of generate\_large\_images.py\<close>

lemma create_bimodal_image_text:
  "\<exists>vs. create_bimodal_image h w g = Inr (plaintext_matrix h w 1 (map (\<lambda>v. [v]) vs)) \<and>
         length vs = nat (h * w) \<and>
         list_all (\<lambda>v. (20 \<le> v \<and> v \<le> 80) \<or> (180 \<le> v \<and> v \<le> 240)) vs"
proof -
  define body where "body = (\<lambda>(i :: nat) (f :: string, g).
             case random g of
               (r, g) \<Rightarrow>
                 and_then (if r < 1 / 2 then randint 20 80 g else randint 180 240 g)
                   (\<lambda>(val, g). Inr (f @ py_str val @ [LF], g)))"
  have def: "create_bimodal_image h w g =
        and_then (for_loop (py_range (h * w)) body (row_line [h, w, 1], g)) (\<lambda>(f, g). Inr f)"
    unfolding create_bimodal_image_def header_text body_def by (rule refl)
  have step: "\<exists>v g'. body i s = Inr (fst s @ row_line [v], g') \<and>
                ((20 \<le> v \<and> v \<le> 80) \<or> (180 \<le> v \<and> v \<le> 240))" for i s
  proof -
    obtain f g0 where s: "s = (f, g0)" by (cases s)
    obtain r g1 where r: "random g0 = (r, g1)" by (cases "random g0")
    define draw where "draw = (if r < 1 / 2 then randint 20 80 g1 else randint 180 240 g1)"
    obtain v g2 where v: "draw = Inr (v, g2)"
      "(20 \<le> v \<and> v \<le> 80) \<or> (180 \<le> v \<and> v \<le> 240)"
      using randint_ok [of 20 80 g1] randint_ok [of 180 240 g1]
      unfolding draw_def by (cases "r < 1 / 2") auto
    have "body i s = and_then draw (\<lambda>(val, g). Inr (f @ py_str val @ [LF], g))"
      unfolding body_def s draw_def by (simp only: r prod.case)
    then have "body i s = Inr (fst s @ row_line [v], g2)"
      by (simp add: v(1) s row_line_def)
    then show ?thesis using v(2) by blast
  qed
  have "\<exists>s'. for_loop (py_range (h * w)) body (row_line [h, w, 1], g) = Inr s'"
    by (rule loop_total) (use step in blast)
  then obtain s' where s': "for_loop (py_range (h * w)) body (row_line [h, w, 1], g) = Inr s'"
    by blast
  have "\<exists>vs. fst s' = fst (row_line [h, w, 1], g) @ concat (map (\<lambda>v. row_line [v]) vs) \<and>
          length vs = length (py_range (h * w)) \<and>
          list_all (\<lambda>v. (20 \<le> v \<and> v \<le> 80) \<or> (180 \<le> v \<and> v \<le> 240)) vs"
  proof (rule loop_accumulates [OF _ s'])
    fix i :: nat and s t :: "string \<times> rng"
    assume b: "body i s = Inr t"
    obtain v g' where "body i s = Inr (fst s @ row_line [v], g')"
      "(20 \<le> v \<and> v \<le> 80) \<or> (180 \<le> v \<and> v \<le> 240)"
      using step by blast
    then show "\<exists>v. fst t = fst s @ row_line [v] \<and>
              ((20 \<le> v \<and> v \<le> 80) \<or> (180 \<le> v \<and> v \<le> 240))"
      using b by (intro exI [of _ v]) simp
  qed
  then obtain vs where vs: "fst s' = row_line [h, w, 1] @ concat (map (\<lambda>v. row_line [v]) vs)"
    "length vs = nat (h * w)"
    "list_all (\<lambda>v. (20 \<le> v \<and> v \<le> 80) \<or> (180 \<le> v \<and> v \<le> 240)) vs"
    by (auto simp: py_range_def)
  have "create_bimodal_image h w g = Inr (plaintext_matrix h w 1 (map (\<lambda>v. [v]) vs))"
    by (cases s') (use vs(1) in \<open>simp add: def s' plaintext_matrix_def comp_def\<close>)
  then show ?thesis using vs(2,3) by blast
qed

subsection \<open>Grids\<close>

lemma length_grid: "length (grid h w f) = nat h"
  by (simp add: grid_def)

lemma grid_rows: "row \<in> set (grid h w f) \<Longrightarrow> length row = nat w"
  by (auto simp: grid_def)

lemma grid_values:
  "row \<in> set (grid h w f) \<Longrightarrow> v \<in> set row \<Longrightarrow> \<exists>y x. y < nat h \<and> x < nat w \<and> v = f y x"
proof -
  assume "row \<in> set (grid h w f)" and v: "v \<in> set row"
  then obtain y where y: "y < nat h" "row = map (f y) [0..<nat w]"
    by (auto simp: grid_def)
  from v obtain x where "x < nat w" "v = f y x" by (auto simp: y(2))
  then show ?thesis using y(1) by blast
qed

lemma byte_rows_gradient:
  "byte_rows (grid h w (\<lambda>y x. if int x mod 50 < 5 then 255 - gradient_value w x
                               else gradient_value w x))"
  unfolding byte_rows_def
proof (intro ballI)
  fix row v
  assume r: "row \<in> set (grid h w (\<lambda>y x. if int x mod 50 < 5 then 255 - gradient_value w x
                               else gradient_value w x))" and m: "v \<in> set row"
  from grid_values [OF r m] obtain y x where x: "x < nat w"
    and v: "v = (if int x mod 50 < 5 then 255 - gradient_value w x else gradient_value w x)"
    by blast
  show "0 \<le> v \<and> v \<le> 255"
    using gradient_value_range [OF x] by (cases "int x mod 50 < 5") (simp_all add: v)
qed

lemma byte_rows_checkerboard:
  "byte_rows (grid h w (\<lambda>y x. if even (int x div b + int y div b) then 200 else (50 :: int)))"
  unfolding byte_rows_def
proof (intro ballI)
  fix row v
  assume r: "row \<in> set (grid h w (\<lambda>y x. if even (int x div b + int y div b) then 200 else (50 :: int)))"
    and m: "v \<in> set row"
  from grid_values [OF r m] obtain y x
    where "v = (if even (int x div b + int y div b) then 200 else 50)"
    by blast
  then show "0 \<le> v \<and> v \<le> 255" by (cases "even (int x div b + int y div b)") simp_all
qed

lemma create_checkerboard_image_zero_block:
  assumes "0 < h" "0 < w"
  shows "create_checkerboard_image h w 0 = Inl ZeroDivisionError"
  using assms
  by (simp add: create_checkerboard_image_def py_range_Suc [of h] py_range_Suc [of w])

lemma create_checkerboard_image_empty:
  assumes "h \<le> 0 \<or> w \<le> 0"
  shows "create_checkerboard_image h w b = Inr (plaintext_matrix h w 1 (grid h w (\<lambda>y x. 0)))"
  unfolding create_checkerboard_image_def
  by (rule text_generator) (use assms in auto)

lemma create_checkerboard_image_bytes:
  assumes "create_checkerboard_image h w b = Inr txt"
  shows "\<exists>rows. txt = plaintext_matrix h w 1 rows \<and> byte_rows rows"
proof (cases "b = 0")
  case False
  then show ?thesis
    using assms create_checkerboard_image_text [of b h w] byte_rows_checkerboard by auto
next
  case True
  show ?thesis
  proof (cases "h \<le> 0 \<or> w \<le> 0")
    case True
    have "byte_rows (grid h w (\<lambda>y x. 0))" by (auto simp: byte_rows_def grid_def)
    then show ?thesis using assms create_checkerboard_image_empty [OF True, of b] by auto
  next
    case False
    then show ?thesis
      using assms \<open>b = 0\<close> create_checkerboard_image_zero_block [of h w] by simp
  qed
qed

lemma shape_grid_bytes: "shape_grid h w rows \<Longrightarrow> byte_rows rows"
  by (fastforce simp: shape_grid_def byte_rows_def)

lemma create_shapes_image_bytes:
  assumes "create_shapes_image h w g = Inr txt"
  shows "\<exists>rows. txt = plaintext_matrix h w 1 rows \<and> byte_rows rows"
proof (cases "100 \<le> h \<and> 100 \<le> w")
  case True
  then show ?thesis
    using assms create_shapes_image_ok [of h w g] shape_grid_bytes by auto
next
  case False
  then have "h < 100 \<or> w < 100" by auto
  then show ?thesis using assms create_shapes_image_small [of h w g] by simp
qed

subsection \<open>Files written from arrays\<close>

lemma save_image_txt_text:
  "save_image_txt arr =
     plaintext_matrix (int (nrows arr)) (int (ncols arr)) 1 (map (map uint) (np_rows arr))"
  unfolding save_image_txt_def header_text foldl_snoc_concat
  by (simp add: plaintext_matrix_def np_rows_def row_line_def comp_def)

lemma byte_rows_uint: "byte_rows (map (map uint) (rows :: 8 word list list))"
proof -
  have "0 \<le> uint v \<and> uint v \<le> 255" for v :: "8 word"
    using uint_lt2p [of v] by simp
  then show ?thesis by (auto simp: byte_rows_def)
qed

lemma save_image_txt_bytes:
  "\<exists>rows. save_image_txt arr = plaintext_matrix (int (nrows arr)) (int (ncols arr)) 1 rows \<and>
          byte_rows rows"
  using save_image_txt_text byte_rows_uint by blast

subsection \<open>Shape of the written files\<close>

lemma pixel_rows_shape:
  assumes "0 < w"
  shows "length ps = i + k * w \<Longrightarrow>
         length (pixel_rows i w ps) = k \<and> (\<forall>row \<in> set (pixel_rows i w ps). length row = w)"
proof (induction k arbitrary: i)
  case 0
  then show ?case by (subst pixel_rows.simps, subst (2) pixel_rows.simps) simp
next
  case (Suc k)
  have len: "length ps = (i + w) + k * w" using Suc.prems by simp
  have lt: "\<not> length ps \<le> i" using Suc.prems assms by simp
  have unfold: "pixel_rows i w ps = take w (drop i ps) # pixel_rows (i + w) w ps"
    using lt assms by (subst pixel_rows.simps) simp
  have "length (take w (drop i ps)) = w" using Suc.prems by simp
  then show ?case using Suc.IH [OF len] by (simp add: unfold)
qed

lemma matrix_text_convert_to_txt:
  assumes "0 < img_width img" "length (img_data img) = img_width img * img_height img"
  shows "matrix_text (int (img_height img)) (int (img_width img)) 1 (file_text (convert_to_txt img))"
proof -
  have "length (img_data img) = 0 + img_height img * img_width img"
    using assms(2) by (simp add: mult.commute)
  from pixel_rows_shape [OF assms(1) this] show ?thesis
    unfolding matrix_text_def file_text_convert_to_txt
    by (intro exI [of _ "pixel_rows 0 (img_width img) (img_data img)"]) simp
qed

lemma matrix_text_grid:
  assumes "0 \<le> h" "0 \<le> w"
  shows "matrix_text h w 1 (plaintext_matrix h w 1 (grid h w f))"
  unfolding matrix_text_def
  by (intro exI [of _ "grid h w f"]) (use assms in \<open>auto simp: length_grid grid_rows\<close>)

lemma matrix_text_np_rows:
  "matrix_text (int (nrows arr)) (int (ncols arr)) 1
     (plaintext_matrix (int (nrows arr)) (int (ncols arr)) 1 (map (map f) (np_rows arr)))"
  unfolding matrix_text_def
  by (intro exI [of _ "map (map f) (np_rows arr)"]) (auto simp: np_rows_def)

lemma save_image_matrix_gray_text:
  "save_image_matrix (Gray arr) =
     plaintext_matrix (int (nrows arr)) (int (ncols arr)) 1 (map (map uint) (np_rows arr))"
  unfolding save_image_matrix.simps foldl_snoc_concat
  by (simp add: plaintext_matrix_def np_rows_def row_line_def comp_def)

lemma foldl_extend:
  "foldl (\<lambda>row_vals x. case f x of (r, g, b) \<Rightarrow> row_vals @ [p r, p g, p b]) acc xs =
     acc @ concat (map (\<lambda>x. case f x of (r, g, b) \<Rightarrow> [p r, p g, p b]) xs)"
  by (induction xs arbitrary: acc) (auto split: prod.splits)

lemma length_rgb_row: "length (rgb_row arr y) = 3 * ncols arr"
proof -
  have "length (concat (map (\<lambda>x. case f x of (r, g, b) \<Rightarrow> [p r, p g, p b]) xs)) = 3 * length xs"
    for f :: "nat \<Rightarrow> 8 word \<times> 8 word \<times> 8 word" and p :: "8 word \<Rightarrow> int" and xs
    by (induction xs) (auto split: prod.splits)
  then show ?thesis by (simp add: rgb_row_def)
qed

lemma save_image_matrix_rgb_text:
  "save_image_matrix (RGB arr) =
     plaintext_matrix (int (nrows arr)) (int (ncols arr)) 3 (map (rgb_row arr) [0..<nrows arr])"
  unfolding save_image_matrix.simps foldl_snoc_concat foldl_extend
  by (simp add: plaintext_matrix_def row_line_def rgb_row_def comp_def)

lemma matrix_text_rgb:
  "matrix_text (int (nrows arr)) (int (ncols arr)) 3 (save_image_matrix (RGB arr))"
  unfolding matrix_text_def save_image_matrix_rgb_text
  by (intro exI [of _ "map (rgb_row arr) [0..<nrows arr]"]) (auto simp: length_rgb_row)

subsection \<open>Lines of a text in the format\<close>

lemma count_LF_append: "count_LF (s @ t) = count_LF s + count_LF t"
  by (simp add: count_LF_def)

lemma count_LF_row_line: "count_LF (row_line vs) = 1"
proof -
  have "filter (\<lambda>c. c = LF) (py_join '' '' (map py_str vs)) = []"
    using row_body_no_newline [of vs] by (auto simp: filter_empty_conv)
  then show ?thesis by (simp add: count_LF_def row_line_def)
qed

lemma count_LF_rows: "count_LF (concat (map row_line rows)) = length rows"
  by (induction rows) (simp_all add: count_LF_append count_LF_row_line, simp add: count_LF_def)

lemma count_LF_plaintext_matrix: "count_LF (plaintext_matrix h w c rows) = Suc (length rows)"
  by (simp add: plaintext_matrix_def count_LF_append count_LF_row_line count_LF_rows)

lemma matrix_text_lines: "matrix_text h w c txt \<Longrightarrow> int (count_LF txt) = h + 1"
  by (auto simp: matrix_text_def count_LF_plaintext_matrix)

section \<open>The matrix codec\<close>

lemma caught_convert_to_txt:
  "caught (convert_to_txt img) = (if img_width img = 0 then Some ValueError else None)"
  by (simp add: convert_to_txt_def Let_def)

lemma digits_limit: "(2 :: int) ^ 31 \<le> 10 ^ max_str_digits"
proof -
  have "(2 :: int) ^ 31 \<le> 10 ^ 10" by simp
  also have "\<dots> \<le> 10 ^ max_str_digits"
  proof (rule power_increasing)
    show "10 \<le> max_str_digits" by (simp add: max_str_digits_def)
    show "(1 :: int) \<le> 10" by simp
  qed
  finally show ?thesis .
qed

lemma size_within_limit: "n < 2 ^ 31 \<Longrightarrow> \<bar>int n\<bar> < 10 ^ max_str_digits"
proof -
  assume "n < 2 ^ 31"
  then have "int n < 2 ^ 31" by simp
  then have "int n < 10 ^ max_str_digits" using digits_limit by (rule less_le_trans)
  then show ?thesis by simp
qed

lemma byte_within_limit: "0 \<le> p \<Longrightarrow> p \<le> 255 \<Longrightarrow> \<bar>p :: int\<bar> < 10 ^ max_str_digits"
proof -
  assume p: "0 \<le> p" "p \<le> 255"
  then have "p < 2 ^ 31" by simp
  then have "p < 10 ^ max_str_digits" using digits_limit by (rule less_le_trans)
  then show ?thesis using p by simp
qed

text \<open>
  C1.  For every grayscale raster image, of any height and width that the codec can
  hold (zero included): the text that \<open>convert_to_txt\<close> leaves in the file, read back by \<open>convert_to_img\<close>, hands
  the image codec the original size and the original pixel values, integer for integer,
  and no pixel-count warning is printed.  (With width 0 the writer's \<open>range\<close> call raises
  after the header is written; the file then holds the header alone, which reads back
  as the image without pixels.)
\<close>

theorem round_trip:
  assumes "grayscale img"
  shows "convert_to_img (file_text (convert_to_txt img)) =
           Image_data False (int (img_width img)) (int (img_height img)) (img_data img)"
proof -
  let ?rows = "pixel_rows 0 (img_width img) (img_data img)"
  have len: "length (img_data img) = img_width img * img_height img"
    using assms by (simp add: grayscale_def)
  have c: "concat ?rows = img_data img" by (rule concat_pixel_rows_0 [OF len])
  have "\<forall>p \<in> set (img_data img). \<bar>p\<bar> < 10 ^ max_str_digits"
    using assms byte_within_limit by (simp add: grayscale_def list_all_iff)
  then have "\<forall>p \<in> set (concat ?rows). \<bar>p\<bar> < 10 ^ max_str_digits" by (simp only: c)
  then have rows: "list_all (list_all (\<lambda>v. \<bar>v\<bar> < 10 ^ max_str_digits)) ?rows"
    by (auto simp: list_all_iff)
  have h: "\<bar>int (img_height img)\<bar> < 10 ^ max_str_digits"
    using assms by (intro size_within_limit) (simp add: grayscale_def)
  have w: "\<bar>int (img_width img)\<bar> < 10 ^ max_str_digits"
    using assms by (intro size_within_limit) (simp add: grayscale_def)
  have one: "\<bar>1 :: int\<bar> < 10 ^ max_str_digits"
    by (rule byte_within_limit) simp_all
  show ?thesis
    unfolding file_text_convert_to_txt convert_to_img_plaintext_matrix [OF h w one rows]
    by (simp add: c len)
qed

theorem round_trip_witness:
  "grayscale \<lparr>img_width = 2, img_height = 2, img_data = [0, 85, 170, 255]\<rparr> \<and>
   convert_to_img
     (file_text (convert_to_txt \<lparr>img_width = 2, img_height = 2, img_data = [0, 85, 170, 255]\<rparr>))
   = Image_data False 2 2 [0, 85, 170, 255]"
proof -
  have g: "grayscale \<lparr>img_width = 2, img_height = 2, img_data = [0, 85, 170, 255]\<rparr>"
    by (simp add: grayscale_def)
  show ?thesis using g round_trip [OF g] by simp
qed







lemma read_header_ok_iff:
  "(\<exists>h w c. read_header line = Header_ok h w c) \<longleftrightarrow>
     (length (py_split line) = 3 \<and> (\<forall>t \<in> set (py_split line). py_int t \<noteq> Inl ValueError))"
proof -
  let ?ts = "py_split line"
  have "(\<exists>h w c. read_header line = Header_ok h w c) \<longleftrightarrow>
          (length ?ts = 3 \<and> (\<exists>vs. map_int ?ts = Inr vs))"
    by (auto simp: read_header_def py_split_py_strip Let_def split: sum.splits)
  also have "(\<exists>vs. map_int ?ts = Inr vs) \<longleftrightarrow> \<not> (\<exists>e. map_int ?ts = Inl e)"
    by (cases "map_int ?ts") auto
  finally show ?thesis by (simp add: map_int_Inl_iff)
qed

lemma py_int_decimal:
  assumes "list_all is_digit t" and "t \<noteq> []"
  shows "py_int t = (if length t \<le> max_str_digits then Inr (int (dec_val 0 t)) else Inl ValueError)"
proof -
  obtain c cs where t: "t = c # cs" using assms(2) by (cases t) auto
  have "is_digit c" using assms(1) by (simp add: t)
  then have c: "c \<noteq> CHR ''-''" "c \<noteq> CHR ''+''" using digit_not_sign by auto
  have "py_strip t = c # cs"
    using py_strip_no_space [OF no_space_digits [OF assms(1)]] by (simp add: t)
  moreover have "int_literal (c # cs) =
      (if max_str_digits < length t then None else Some (dec_val 0 t))"
    using int_literal_digits [OF assms] by (simp add: t)
  ultimately show ?thesis using c by (simp add: py_int_def)
qed

lemma py_int_negative:
  assumes "list_all is_digit t" and "t \<noteq> []"
  shows "py_int (CHR ''-'' # t) =
           (if length t \<le> max_str_digits then Inr (- int (dec_val 0 t)) else Inl ValueError)"
proof -
  have "no_space (CHR ''-'' # t)"
    using no_space_digits [OF assms(1)] by (simp add: no_space_def minus_not_space)
  then have "py_strip (CHR ''-'' # t) = CHR ''-'' # t" by (rule py_strip_no_space)
  then show ?thesis by (simp add: py_int_def int_literal_digits [OF assms])
qed

lemma convert_to_img_no_image:
  assumes "\<forall>h w c. read_header (fst (readline (universal_newlines txt))) \<noteq> Header_ok h w c"
  shows "convert_to_img txt \<noteq> Image_data b w h ps"
  using assms
  by (cases "read_header (fst (readline (universal_newlines txt)))")
     (auto simp: convert_to_img_def split: prod.splits)

lemma load_segmented_header_fails_iff:
  "load_segmented_header txt = Inl ValueError \<longleftrightarrow>
     (\<forall>h w c. read_header (fst (readline (universal_newlines txt))) \<noteq> Header_ok h w c)"
proof -
  let ?l = "fst (readline (universal_newlines txt))"
  have e: "py_strip ?l = [] \<longleftrightarrow> py_split (py_strip ?l) = []"
    by (simp add: py_strip_eq_Nil py_split_py_strip py_split_eq_Nil)
  show ?thesis
  proof (cases "map_int (py_split (py_strip ?l))")
    case (Inl err)
    then have "err = ValueError" by (rule map_int_error)
    with Inl show ?thesis
      by (auto simp: load_segmented_header_def read_header_def Let_def e)
  next
    case (Inr vs)
    then show ?thesis
      by (auto simp: load_segmented_header_def read_header_def Let_def e)
  qed
qed

lemma header_fails_iff:
  "(\<forall>h w c. read_header line \<noteq> Header_ok h w c) \<longleftrightarrow>
      (py_split line = [] \<or> length (py_split line) \<noteq> 3 \<or>
       (\<exists>t \<in> set (py_split line). py_int t = Inl ValueError))"
proof -
  have "(\<forall>h w c. read_header line \<noteq> Header_ok h w c) \<longleftrightarrow>
          \<not> (length (py_split line) = 3 \<and> (\<forall>t \<in> set (py_split line). py_int t \<noteq> Inl ValueError))"
    using read_header_ok_iff [of line] by blast
  then show ?thesis by auto
qed

text \<open>
  C3, as the code has it.  The header stage of \<open>convert_to_img\<close> fails, and the function
  then produces no image, exactly when the first line holds no token, does not hold
  exactly three tokens, or holds a token that \<open>int\<close> rejects; the header stage of
  \<open>load_segmented_image\<close> raises its \<open>ValueError\<close> on exactly the same files.  A token
  of decimal digits is accepted, with its value, when it has at most 4300 digits (the
  interpreter's limit) and is rejected when it has more; \<open>int\<close> also takes a sign, so
  the same digits after a minus sign are accepted as the negative number.
\<close>

theorem header_rejected_iff:
  "((\<forall>h w c. read_header line \<noteq> Header_ok h w c) \<longleftrightarrow>
      (py_split line = [] \<or> length (py_split line) \<noteq> 3 \<or>
       (\<exists>t \<in> set (py_split line). py_int t = Inl ValueError))) \<and>
   ((\<forall>h w c. read_header (fst (readline (universal_newlines txt))) \<noteq> Header_ok h w c) \<longrightarrow>
      (\<forall>b w h ps. convert_to_img txt \<noteq> Image_data b w h ps)) \<and>
   (load_segmented_header txt = Inl ValueError \<longleftrightarrow>
      (py_split (fst (readline (universal_newlines txt))) = [] \<or>
       length (py_split (fst (readline (universal_newlines txt)))) \<noteq> 3 \<or>
       (\<exists>t \<in> set (py_split (fst (readline (universal_newlines txt)))).
          py_int t = Inl ValueError))) \<and>
   (list_all is_digit t \<and> t \<noteq> [] \<longrightarrow>
      (if length t \<le> max_str_digits
       then py_int t = Inr (int (dec_val 0 t)) \<and>
            py_int (CHR ''-'' # t) = Inr (- int (dec_val 0 t))
       else py_int t = Inl ValueError \<and> py_int (CHR ''-'' # t) = Inl ValueError))"
proof -
  let ?first = "fst (readline (universal_newlines txt))"
  have 1: "(\<forall>h w c. read_header line \<noteq> Header_ok h w c) \<longleftrightarrow>
      (py_split line = [] \<or> length (py_split line) \<noteq> 3 \<or>
       (\<exists>t \<in> set (py_split line). py_int t = Inl ValueError))"
    by (rule header_fails_iff)
  have 2: "(\<forall>h w c. read_header ?first \<noteq> Header_ok h w c) \<longrightarrow>
      (\<forall>b w h ps. convert_to_img txt \<noteq> Image_data b w h ps)"
    using convert_to_img_no_image [of "txt"] by blast
  have 3: "load_segmented_header txt = Inl ValueError \<longleftrightarrow>
      (py_split ?first = [] \<or> length (py_split ?first) \<noteq> 3 \<or>
       (\<exists>t \<in> set (py_split ?first). py_int t = Inl ValueError))"
    unfolding load_segmented_header_fails_iff by (rule header_fails_iff)
  have 4: "list_all is_digit t \<and> t \<noteq> [] \<longrightarrow>
      (if length t \<le> max_str_digits
       then py_int t = Inr (int (dec_val 0 t)) \<and>
            py_int (CHR ''-'' # t) = Inr (- int (dec_val 0 t))
       else py_int t = Inl ValueError \<and> py_int (CHR ''-'' # t) = Inl ValueError)"
    using py_int_decimal [of t] py_int_negative [of t] by simp
  from 1 2 3 4 show ?thesis by (intro conjI)
qed

lemma scenario_4_tokens: "py_split ''bad header\<newline>'' = [''bad'', ''header'']"
  by code_simp

lemma scenario_4_first: "fst (readline (universal_newlines ''bad header\<newline>'')) = ''bad header\<newline>''"
  by simp

lemma digits_12: "list_all is_digit ''12'' \<and> ''12'' \<noteq> [] \<and> length ''12'' \<le> max_str_digits"
  by (simp add: is_digit_def max_str_digits_def)

lemma dec_val_12: "dec_val 0 ''12'' = 12"
  by (simp add: dec_val_def digit_val_def)

theorem header_rejected_iff_witness:
  "(\<forall>h w c. read_header ''bad header\<newline>'' \<noteq> Header_ok h w c) \<and>
   (\<forall>b w h ps. convert_to_img ''bad header\<newline>'' \<noteq> Image_data b w h ps) \<and>
   load_segmented_header ''bad header\<newline>'' = Inl ValueError \<and>
   list_all is_digit ''12'' \<and> ''12'' \<noteq> [] \<and> length ''12'' \<le> max_str_digits \<and>
   py_int ''12'' = Inr 12 \<and> py_int ''-12'' = Inr (- 12)"
proof -
  note w = header_rejected_iff [of "''bad header\<newline>''" "''bad header\<newline>''" "''12''"]
  have 1: "\<forall>h w c. read_header ''bad header\<newline>'' \<noteq> Header_ok h w c"
    using w [THEN conjunct1] by (simp add: scenario_4_tokens)
  have 2: "\<forall>b w h ps. convert_to_img ''bad header\<newline>'' \<noteq> Image_data b w h ps"
    using w [THEN conjunct2, THEN conjunct1] 1 by (simp add: scenario_4_first)
  have 3: "load_segmented_header ''bad header\<newline>'' = Inl ValueError"
    using w [THEN conjunct2, THEN conjunct2, THEN conjunct1]
    by (simp add: scenario_4_first scenario_4_tokens)
  have 4: "py_int ''12'' = Inr 12 \<and> py_int ''-12'' = Inr (- 12)"
    using w [THEN conjunct2, THEN conjunct2, THEN conjunct2] digits_12 dec_val_12 by simp
  show ?thesis using 1 2 3 4 digits_12 by blast
qed

text \<open>
  The claim as stated fails on a negative header: the line \<open>-2 2 1\<close> holds a token that
  is not a non-negative decimal integer, and the header stage accepts it with height
  \<open>-2\<close>; the pixel lines are then read and the codec is called with that size.
\<close>

theorem negative_header_counterexample:
  "read_header ''-2 2 1\<newline>'' = Header_ok (- 2) 2 1 \<and>
   convert_to_img ''-2 2 1\<newline>'' = Image_data True 2 (- 2) []"
  by code_simp

text \<open>
  C9.  With four arguments and a mode that is neither \<open>to_txt\<close> nor \<open>to_img\<close> the script
  prints its unknown-mode line and ends with status 0; with fewer than four arguments it
  prints the usage text and exits with status 1.
\<close>

theorem main_unknown_mode:
  "main [''convert_image.py'', ''rotate'', ''in.png'', ''out.txt''] = (Print_unknown_mode, 0)"
  by (simp add: main_def)

lemma main_too_few_arguments: "length argv < 4 \<Longrightarrow> main argv = (Print_usage, 1)"
  by (simp add: main_def)

section \<open>Files and values of the generators\<close>

lemma matrix_text_rows:
  assumes "0 \<le> h" "0 \<le> w" "length rows = nat h" "\<forall>row \<in> set rows. length row = nat w"
  shows "matrix_text h w 1 (plaintext_matrix h w 1 rows)"
  unfolding matrix_text_def
  by (intro exI [of _ rows]) (use assms in auto)

lemma create_noisy_edges_image_format:
  assumes "0 \<le> h" "0 \<le> w"
  shows "\<exists>txt. create_noisy_edges_image h w g = Inr txt \<and> matrix_text h w 1 txt"
proof -
  obtain rows where r: "create_noisy_edges_image h w g = Inr (plaintext_matrix h w 1 rows)"
    "length rows = nat h"
    "list_all (\<lambda>row. length row = nat w \<and> list_all (\<lambda>v. 0 \<le> v \<and> v \<le> 255) row) rows"
    using create_noisy_edges_image_text [of h w g] by blast
  have "\<forall>row \<in> set rows. length row = nat w" using r(3) by (simp add: list_all_iff)
  then show ?thesis using matrix_text_rows [OF assms r(2)] r(1) by blast
qed

lemma create_shapes_image_format:
  assumes "100 \<le> h" "100 \<le> w"
  shows "\<exists>txt. create_shapes_image h w g = Inr txt \<and> matrix_text h w 1 txt"
proof -
  obtain rows where r: "create_shapes_image h w g = Inr (plaintext_matrix h w 1 rows)"
    "shape_grid h w rows"
    using create_shapes_image_ok [OF assms, of g] by blast
  have "length rows = nat h" "\<forall>row \<in> set rows. length row = nat w"
    using r(2) by (auto simp: shape_grid_def)
  then show ?thesis using matrix_text_rows [of h w rows] assms r(1) by auto
qed

lemma create_bimodal_image_format:
  assumes "0 \<le> h" "0 \<le> w"
  shows "\<exists>rows. create_bimodal_image h w g = Inr (plaintext_matrix h w 1 rows) \<and>
          int (length rows) = h * w \<and> (\<forall>row \<in> set rows. length row = 1)"
proof -
  obtain vs where v: "create_bimodal_image h w g = Inr (plaintext_matrix h w 1 (map (\<lambda>v. [v]) vs))"
    "length vs = nat (h * w)"
    using create_bimodal_image_text [of h w g] by blast
  have "0 \<le> h * w" using assms by simp
  then show ?thesis
    by (intro exI [of _ "map (\<lambda>v. [v]) vs"]) (auto simp: v)
qed

lemma scenario_1:
  "file_text (convert_to_txt \<lparr>img_width = 2, img_height = 2, img_data = [0, 85, 170, 255]\<rparr>) =
     ''2 2 1\<newline>0 85\<newline>170 255\<newline>''"
  by code_simp

text \<open>
  C7, as the code has it.  Every file written row by row is in the format: the header
  \<open>height width channels\<close>, then exactly \<open>height\<close> lines of \<open>width * channels\<close>
  integers separated by single spaces.  This holds for \<open>convert_to_txt\<close> on an image of
  positive width, for \<open>save_image_matrix\<close> (grayscale and RGB), for \<open>save_image_txt\<close>,
  and for the four generators of the edge-detection script within their preconditions.
  \<open>create_bimodal_image\<close> of \<open>generate_large_images.py\<close> writes the same header and then
  \<open>height * width\<close> lines of one integer each.  The 2x2 image with pixels 0, 85, 170,
  255 is written as \<open>2 2 1\<close>, \<open>0 85\<close>, \<open>170 255\<close>.
\<close>

theorem plaintext_files_format:
  "(0 < img_width img \<and> length (img_data img) = img_width img * img_height img \<longrightarrow>
      matrix_text (int (img_height img)) (int (img_width img)) 1 (file_text (convert_to_txt img))) \<and>
   matrix_text (int (nrows arr)) (int (ncols arr)) 1 (save_image_matrix (Gray arr)) \<and>
   matrix_text (int (nrows rgb)) (int (ncols rgb)) 3 (save_image_matrix (RGB rgb)) \<and>
   matrix_text (int (nrows arr)) (int (ncols arr)) 1 (save_image_txt arr) \<and>
   (0 \<le> h \<and> 0 \<le> w \<longrightarrow>
      (\<exists>txt. create_gradient_image h w = Inr txt \<and> matrix_text h w 1 txt) \<and>
      (\<exists>txt. create_noisy_edges_image h w g = Inr txt \<and> matrix_text h w 1 txt) \<and>
      (block_size \<noteq> 0 \<longrightarrow>
         (\<exists>txt. create_checkerboard_image h w block_size = Inr txt \<and> matrix_text h w 1 txt)) \<and>
      (100 \<le> h \<and> 100 \<le> w \<longrightarrow>
         (\<exists>txt. create_shapes_image h w g = Inr txt \<and> matrix_text h w 1 txt)) \<and>
      (\<exists>rows. create_bimodal_image h w g = Inr (plaintext_matrix h w 1 rows) \<and>
              int (length rows) = h * w \<and> (\<forall>row \<in> set rows. length row = 1))) \<and>
   file_text (convert_to_txt \<lparr>img_width = 2, img_height = 2, img_data = [0, 85, 170, 255]\<rparr>) =
     ''2 2 1\<newline>0 85\<newline>170 255\<newline>''"
proof -
  have 1: "matrix_text (int (nrows arr)) (int (ncols arr)) 1 (save_image_matrix (Gray arr))"
    unfolding save_image_matrix_gray_text by (rule matrix_text_np_rows)
  have 2: "matrix_text (int (nrows arr)) (int (ncols arr)) 1 (save_image_txt arr)"
    unfolding save_image_txt_text by (rule matrix_text_np_rows)
  have 3: "\<exists>txt. create_gradient_image h w = Inr txt \<and> matrix_text h w 1 txt"
    if "0 \<le> h" "0 \<le> w"
    using matrix_text_grid [OF that] by (simp add: create_gradient_image_text)
  have 4: "\<exists>txt. create_checkerboard_image h w block_size = Inr txt \<and> matrix_text h w 1 txt"
    if "0 \<le> h" "0 \<le> w" "block_size \<noteq> 0"
    using matrix_text_grid [OF that(1,2)] by (simp add: create_checkerboard_image_text [OF that(3)])
  show ?thesis
    using 1 2 3 4 matrix_text_convert_to_txt [of img] matrix_text_rgb [of rgb]
      create_noisy_edges_image_format [of h w g] create_shapes_image_format [of h w g]
      create_bimodal_image_format [of h w g] scenario_1
    by blast
qed

lemma bimodal_1x2: "create_bimodal_image 1 2 (\<lambda>n. 0) = Inr ''1 2 1\<newline>20\<newline>20\<newline>''"
  by code_simp

lemma checkerboard_2x4: "create_checkerboard_image 2 4 2 =
    Inr ''2 4 1\<newline>200 200 50 50\<newline>200 200 50 50\<newline>''"
  by code_simp

theorem plaintext_files_format_witness:
  "matrix_text 2 2 1 ''2 2 1\<newline>0 85\<newline>170 255\<newline>'' \<and>
   matrix_text 2 4 1 ''2 4 1\<newline>200 200 50 50\<newline>200 200 50 50\<newline>'' \<and>
   (\<exists>rows. ''1 2 1\<newline>20\<newline>20\<newline>'' = plaintext_matrix 1 2 1 rows \<and> length rows = 2)"
proof -
  let ?img = "\<lparr>img_width = 2, img_height = 2, img_data = [0, 85, 170, 255]\<rparr>"
  note t = plaintext_files_format
    [where img = ?img and h = 2 and w = 4 and g = "\<lambda>n. 0" and block_size = 2]
  note u = plaintext_files_format
    [where img = ?img and h = 1 and w = 2 and g = "\<lambda>n. 0" and block_size = 2]
  have p: "0 < img_width ?img \<and> length (img_data ?img) = img_width ?img * img_height ?img"
    by simp
  have "matrix_text (int (img_height ?img)) (int (img_width ?img)) 1
          (file_text (convert_to_txt ?img))"
    using t [THEN conjunct1] p by (rule mp)
  then have a: "matrix_text 2 2 1 ''2 2 1\<newline>0 85\<newline>170 255\<newline>''"
    unfolding scenario_1 by simp
  have q: "(0 :: int) \<le> 2 \<and> (0 :: int) \<le> 4" and q': "(0 :: int) \<le> 1 \<and> (0 :: int) \<le> 2"
    and nz: "(2 :: int) \<noteq> 0"
    by simp_all
  note t5 = t [THEN conjunct2, THEN conjunct2, THEN conjunct2, THEN conjunct2, THEN conjunct1,
      THEN mp, OF q]
  note u5 = u [THEN conjunct2, THEN conjunct2, THEN conjunct2, THEN conjunct2, THEN conjunct1,
      THEN mp, OF q']
  have "\<exists>txt. create_checkerboard_image 2 4 2 = Inr txt \<and> matrix_text 2 4 1 txt"
    using t5 [THEN conjunct2, THEN conjunct2, THEN conjunct1] nz by (rule mp)
  then have b: "matrix_text 2 4 1 ''2 4 1\<newline>200 200 50 50\<newline>200 200 50 50\<newline>''"
    unfolding checkerboard_2x4 by simp
  have "\<exists>rows. create_bimodal_image 1 2 (\<lambda>n. 0) = Inr (plaintext_matrix 1 2 1 rows) \<and>
              int (length rows) = 1 * 2 \<and> (\<forall>row \<in> set rows. length row = 1)"
    by (rule u5 [THEN conjunct2, THEN conjunct2, THEN conjunct2, THEN conjunct2])
  then have c: "\<exists>rows. ''1 2 1\<newline>20\<newline>20\<newline>'' = plaintext_matrix 1 2 1 rows \<and> length rows = 2"
    unfolding bimodal_1x2 by auto
  show ?thesis using a b c by blast
qed

text \<open>
  The claim as stated fails for \<open>create_bimodal_image\<close>: for height 1 and width 2 the
  file has two pixel lines of one integer, not one line of two.
\<close>

theorem bimodal_lines_counterexample:
  "create_bimodal_image 1 2 (\<lambda>n. 0) = Inr ''1 2 1\<newline>20\<newline>20\<newline>'' \<and>
   \<not> matrix_text 1 2 1 ''1 2 1\<newline>20\<newline>20\<newline>''"
proof -
  have "count_LF ''1 2 1\<newline>20\<newline>20\<newline>'' = 3" by (simp add: count_LF_def)
  then have "\<not> matrix_text 1 2 1 ''1 2 1\<newline>20\<newline>20\<newline>''"
    using matrix_text_lines [of 1 2 1 "''1 2 1\<newline>20\<newline>20\<newline>''"] by auto
  then show ?thesis using bimodal_1x2 by simp
qed

lemma byte_rows_singletons:
  "list_all (\<lambda>v. (20 \<le> v \<and> v \<le> 80) \<or> (180 \<le> v \<and> v \<le> 240)) vs \<Longrightarrow>
   byte_rows (map (\<lambda>v. [v]) vs)"
  by (fastforce simp: byte_rows_def list_all_iff)

lemma byte_rows_list_all:
  "list_all (\<lambda>row. length row = n \<and> list_all (\<lambda>v. 0 \<le> v \<and> v \<le> 255) row) rows \<Longrightarrow>
   byte_rows rows"
  by (simp add: byte_rows_def list_all_iff)

lemma create_gradient_image_bytes:
  "\<exists>txt. create_gradient_image h w = Inr txt \<and> emits_bytes txt"
  unfolding create_gradient_image_text emits_bytes_def
  using byte_rows_gradient by blast

lemma create_noisy_edges_image_bytes:
  "\<exists>txt. create_noisy_edges_image h w g = Inr txt \<and> emits_bytes txt"
  using create_noisy_edges_image_text [of h w g] byte_rows_list_all
  unfolding emits_bytes_def by blast

lemma create_bimodal_image_bytes:
  "\<exists>txt. create_bimodal_image h w g = Inr txt \<and> emits_bytes txt"
  using create_bimodal_image_text [of h w g] byte_rows_singletons
  unfolding emits_bytes_def by blast

lemma save_image_txt_emits_bytes: "emits_bytes (save_image_txt arr)"
  using save_image_txt_bytes [of arr] unfolding emits_bytes_def by blast

text \<open>
  C8.  Every pixel value that a generator writes is an integer of \<open>0..255\<close>, for all
  dimensions and parameters and for every random draw: the gradient, shapes,
  checkerboard and noisy-edges generators of the edge-detection script, the bimodal
  generator of \<open>generate_large_images.py\<close>, and the eight NumPy generators of
  \<open>generate_test_images.py\<close>, whose arrays of \<open>dtype=np.uint8\<close> are written by
  \<open>save_image_txt\<close>.  The gradient, noisy-edges and bimodal writers never raise; the
  others are covered whenever they return.
\<close>

theorem generators_emit_bytes:
  "(\<exists>txt. create_gradient_image h w = Inr txt \<and> emits_bytes txt) \<and>
   (\<exists>txt. create_noisy_edges_image h w g = Inr txt \<and> emits_bytes txt) \<and>
   (\<exists>txt. create_bimodal_image h w g = Inr txt \<and> emits_bytes txt) \<and>
   (\<forall>txt. create_shapes_image h w g = Inr txt \<longrightarrow> emits_bytes txt) \<and>
   (\<forall>txt. create_checkerboard_image h w block_size = Inr txt \<longrightarrow> emits_bytes txt) \<and>
   (\<forall>arr. generate_bimodal_image width height bg_val fg_val = Inr arr \<longrightarrow>
      emits_bytes (save_image_txt arr)) \<and>
   (\<forall>arr. generate_circle_image width height bg_val fg_val = Inr arr \<longrightarrow>
      emits_bytes (save_image_txt arr)) \<and>
   (\<forall>arr. generate_gradient_image width height = Inr arr \<longrightarrow>
      emits_bytes (save_image_txt arr)) \<and>
   (\<forall>arr. generate_checkerboard_image width height block_size dark bright = Inr arr \<longrightarrow>
      emits_bytes (save_image_txt arr)) \<and>
   (\<forall>arr. generate_noisy_bimodal_image width height bg_mean fg_mean noise_std noise_bg noise_fg
           = Inr arr \<longrightarrow>
      emits_bytes (save_image_txt arr)) \<and>
   (\<forall>arr. generate_three_level_image width height = Inr arr \<longrightarrow>
      emits_bytes (save_image_txt arr)) \<and>
   (\<forall>arr. generate_large_test_image width height noise = Inr arr \<longrightarrow>
      emits_bytes (save_image_txt arr)) \<and>
   (\<forall>arr. generate_very_large_image width height noise_top noise_bottom = Inr arr \<longrightarrow>
      emits_bytes (save_image_txt arr))"
proof -
  have s: "\<forall>txt. create_shapes_image h w g = Inr txt \<longrightarrow> emits_bytes txt"
    using create_shapes_image_bytes [of h w g] unfolding emits_bytes_def by blast
  have c: "\<forall>txt. create_checkerboard_image h w block_size = Inr txt \<longrightarrow> emits_bytes txt"
    using create_checkerboard_image_bytes [of h w block_size] unfolding emits_bytes_def by blast
  show ?thesis
    using s c create_gradient_image_bytes [of h w] create_noisy_edges_image_bytes [of h w g]
      create_bimodal_image_bytes [of h w g]
    by (simp add: save_image_txt_emits_bytes)
qed

lemma noisy_edges_2x3:
  "create_noisy_edges_image 2 3 (\<lambda>n. 7 * int n) = Inr ''2 3 1\<newline>55 62 69\<newline>76 83 90\<newline>''"
  by code_simp

lemma noisy_bimodal_2x4:
  "map_sum id save_image_txt
     (generate_noisy_bimodal_image 4 2 60 200 20 (\<lambda>y x. - 100) (\<lambda>y x. 1000)) =
   Inr ''2 4 1\<newline>0 0 255 255\<newline>0 0 255 255\<newline>''"
  by code_simp

theorem generators_emit_bytes_witness:
  "emits_bytes ''2 3 1\<newline>55 62 69\<newline>76 83 90\<newline>'' \<and>
   emits_bytes ''2 4 1\<newline>0 0 255 255\<newline>0 0 255 255\<newline>''"
proof -
  note t = generators_emit_bytes [where h = 2 and w = 3 and g = "\<lambda>n. 7 * int n"
      and width = 4 and height = 2 and bg_mean = 60 and fg_mean = 200 and noise_std = 20
      and noise_bg = "\<lambda>y x. - 100" and noise_fg = "\<lambda>y x. 1000"]
  have "\<exists>txt. create_noisy_edges_image 2 3 (\<lambda>n. 7 * int n) = Inr txt \<and> emits_bytes txt"
    by (rule t [THEN conjunct2, THEN conjunct1])
  then have a: "emits_bytes ''2 3 1\<newline>55 62 69\<newline>76 83 90\<newline>''"
    unfolding noisy_edges_2x3 by simp
  obtain arr where arr:
    "generate_noisy_bimodal_image 4 2 60 200 20 (\<lambda>y x. - 100) (\<lambda>y x. 1000) = Inr arr"
    "save_image_txt arr = ''2 4 1\<newline>0 0 255 255\<newline>0 0 255 255\<newline>''"
    using noisy_bimodal_2x4
    by (cases "generate_noisy_bimodal_image 4 2 60 200 20 (\<lambda>y x. - 100) (\<lambda>y x. 1000)") auto
  have "\<forall>arr. generate_noisy_bimodal_image 4 2 60 200 20 (\<lambda>y x. - 100) (\<lambda>y x. 1000) = Inr arr \<longrightarrow>
      emits_bytes (save_image_txt arr)"
    by (rule t [THEN conjunct2, THEN conjunct2, THEN conjunct2, THEN conjunct2, THEN conjunct2,
          THEN conjunct2, THEN conjunct2, THEN conjunct2, THEN conjunct2, THEN conjunct1])
  then have "emits_bytes (save_image_txt arr)" using arr(1) by blast
  then have b: "emits_bytes ''2 4 1\<newline>0 0 255 255\<newline>0 0 255 255\<newline>''"
    unfolding arr(2) .
  show ?thesis using a b by blast
qed

section \<open>The gradient generators\<close>

lemma generate_gradient_image_cells:
  assumes "2 \<le> width" "width \<le> 2 ^ 44" "0 \<le> height"
  shows "\<exists>img. generate_gradient_image width height = Inr img \<and>
           nrows img = nat height \<and> ncols img = nat width \<and>
           (\<forall>y < nat height. \<forall>x < nat width.
              uint (cell img y x) = (255 * int x) div (width - 1) \<and>
              (\<forall>x' < nat width. x \<le> x' \<longrightarrow> cell img y x \<le> cell img y x'))"
proof -
  let ?v = "\<lambda>x. (255 * int x) div (width - 1)"
  let ?img = "\<lparr>nrows = nat height, ncols = nat width,
                cell = (\<lambda>y x. if y < nat height \<and> x < nat width
                               then word_of_int (?v x) else (0 :: 8 word))\<rparr>"
  have u: "uint (word_of_int (?v x) :: 8 word) = ?v x" if "x < nat width" for x
    using gradient_column_value(2,3) [OF assms(1,2) that] by (rule uint_byte)
  have m: "(word_of_int (?v x) :: 8 word) \<le> word_of_int (?v x')"
    if "x < nat width" "x' < nat width" "x \<le> x'" for x x'
  proof -
    have "?v x \<le> ?v x'" using assms(1) that(3) by (intro floor_gradient_mono) simp_all
    then show ?thesis by (simp add: word_le_def u [OF that(1)] u [OF that(2)])
  qed
  have "generate_gradient_image width height = Inr ?img"
    by (rule generate_gradient_image_array [OF assms])
  moreover have "\<forall>y < nat height. \<forall>x < nat width.
              uint (cell ?img y x) = ?v x \<and>
              (\<forall>x' < nat width. x \<le> x' \<longrightarrow> cell ?img y x \<le> cell ?img y x')"
    using u m by simp
  ultimately show ?thesis by (intro exI [of _ ?img]) simp
qed

lemma gradient_value_mono:
  assumes "w \<le> 2 ^ 44" "x \<le> x'" "x' < nat w"
  shows "gradient_value w x \<le> gradient_value w x'"
proof -
  have x: "x < nat w" using assms(2,3) by simp
  have w: "0 < w" using assms(3) by simp
  show ?thesis
    unfolding gradient_value_formula [OF assms(1) x] gradient_value_formula [OF assms(1,3)]
    using w assms(2) by (rule floor_gradient_mono)
qed

lemma gradient_value_256: "gradient_value 256 0 = 0 \<and> gradient_value 256 255 = 254"
proof -
  have "gradient_value 256 0 = (255 * int 0) div 256"
    by (rule gradient_value_formula) simp_all
  moreover have "gradient_value 256 255 = (255 * int 255) div 256"
    by (rule gradient_value_formula) simp_all
  ultimately show ?thesis by simp
qed

text \<open>
  C6, as the code has it.  \<open>create_gradient_image\<close> (Edge Detection) writes, in every row,
  \<open>floor(255 * x / w)\<close> at column \<open>x\<close>, replaced by 255 minus that value where
  \<open>x mod 50 < 5\<close>; the two float roundings of \<open>int((x / w) * 255)\<close> never change the
  floor for a width up to \<open>2^44\<close>.  \<open>generate_gradient_image\<close> (Image Segmentation)
  divides by \<open>width - 1\<close>: every cell of column \<open>x\<close> is \<open>floor(255 * x / (width - 1))\<close>
  for a width from 2 to \<open>2^44\<close>, and a width of 1 is a \<open>ZeroDivisionError\<close>.  Both
  values are non-decreasing in \<open>x\<close>.  With \<open>w = 256\<close> the first generator computes 0 at
  column 0, which lies in an inversion band and is written as 255, and 254 at column 255.
\<close>

theorem gradient_values:
  "(w \<le> 2 ^ 44 \<longrightarrow>
      create_gradient_image h w =
        Inr (plaintext_matrix h w 1
               (grid h w (\<lambda>y x. if int x mod 50 < 5 then 255 - (255 * int x) div w
                                  else (255 * int x) div w)))) \<and>
   (2 \<le> width \<and> width \<le> 2 ^ 44 \<and> 0 \<le> height \<longrightarrow>
      (\<exists>img. generate_gradient_image width height = Inr img \<and>
         nrows img = nat height \<and> ncols img = nat width \<and>
         (\<forall>y < nat height. \<forall>x < nat width.
            uint (cell img y x) = (255 * int x) div (width - 1) \<and>
            (\<forall>x' < nat width. x \<le> x' \<longrightarrow> cell img y x \<le> cell img y x')))) \<and>
   (0 \<le> height \<longrightarrow> generate_gradient_image 1 height = Inl ZeroDivisionError) \<and>
   (w \<le> 2 ^ 44 \<and> x \<le> x' \<and> x' < nat w \<longrightarrow> gradient_value w x \<le> gradient_value w x') \<and>
   gradient_value 256 0 = 0 \<and> gradient_value 256 255 = 254 \<and>
   (if int 0 mod 50 < 5 then 255 - gradient_value 256 0 else gradient_value 256 0) = 255 \<and>
   (if int 255 mod 50 < 5 then 255 - gradient_value 256 255 else gradient_value 256 255) = 254"
proof -
  have 1: "w \<le> 2 ^ 44 \<longrightarrow>
      create_gradient_image h w =
        Inr (plaintext_matrix h w 1
               (grid h w (\<lambda>y x. if int x mod 50 < 5 then 255 - (255 * int x) div w
                                  else (255 * int x) div w)))"
    using create_gradient_image_formula by blast
  have 2: "2 \<le> width \<and> width \<le> 2 ^ 44 \<and> 0 \<le> height \<longrightarrow>
      (\<exists>img. generate_gradient_image width height = Inr img \<and>
         nrows img = nat height \<and> ncols img = nat width \<and>
         (\<forall>y < nat height. \<forall>x < nat width.
            uint (cell img y x) = (255 * int x) div (width - 1) \<and>
            (\<forall>x' < nat width. x \<le> x' \<longrightarrow> cell img y x \<le> cell img y x')))"
    using generate_gradient_image_cells by blast
  have 3: "0 \<le> height \<longrightarrow> generate_gradient_image 1 height = Inl ZeroDivisionError"
    using generate_gradient_image_width_1 by blast
  have 4: "w \<le> 2 ^ 44 \<and> x \<le> x' \<and> x' < nat w \<longrightarrow> gradient_value w x \<le> gradient_value w x'"
    using gradient_value_mono by blast
  have 5: "gradient_value 256 0 = 0" and 6: "gradient_value 256 255 = 254"
    using gradient_value_256 by simp_all
  have 7: "(if int 0 mod 50 < 5 then 255 - gradient_value 256 0 else gradient_value 256 0) = 255"
    by (simp add: 5)
  have 8: "(if int 255 mod 50 < 5 then 255 - gradient_value 256 255 else gradient_value 256 255) = 254"
    by (simp add: 6)
  from 1 2 3 4 5 6 7 8 show ?thesis by (intro conjI)
qed

lemma gradient_text_1x4:
  "plaintext_matrix 1 4 1
     (grid 1 4 (\<lambda>y x. if int x mod 50 < 5 then 255 - (255 * int x) div 4
                        else (255 * int x) div 4)) = ''1 4 1\<newline>255 192 128 64\<newline>''"
  by code_simp

theorem gradient_values_witness:
  "(4 :: int) \<le> 2 ^ 44 \<and>
   create_gradient_image 1 4 = Inr ''1 4 1\<newline>255 192 128 64\<newline>'' \<and>
   (2 :: int) \<le> 256 \<and> (256 :: int) \<le> 2 ^ 44 \<and> (0 :: int) \<le> 1 \<and>
   (\<exists>img. generate_gradient_image 256 1 = Inr img \<and> nrows img = 1 \<and> ncols img = 256 \<and>
      uint (cell img 0 0) = 0 \<and> uint (cell img 0 255) = 255 \<and> cell img 0 0 \<le> cell img 0 255) \<and>
   generate_gradient_image 1 1 = Inl ZeroDivisionError \<and>
   (0 :: nat) \<le> 255 \<and> 255 < nat 256 \<and> gradient_value 256 0 \<le> gradient_value 256 255"
proof -
  note a = gradient_values [of 4 1 256 1 0 0]
  note b = gradient_values [of 256 1 256 1 0 255]
  have 1: "create_gradient_image 1 4 = Inr ''1 4 1\<newline>255 192 128 64\<newline>''"
    using a [THEN conjunct1] unfolding gradient_text_1x4 by simp
  obtain img where i: "generate_gradient_image 256 1 = Inr img" "nrows img = nat 1"
      "ncols img = nat 256"
      "\<forall>y < nat 1. \<forall>x < nat 256.
          uint (cell img y x) = (255 * int x) div (256 - 1) \<and>
          (\<forall>x' < nat 256. x \<le> x' \<longrightarrow> cell img y x \<le> cell img y x')"
    using b [THEN conjunct2, THEN conjunct1] by auto
  have c0: "uint (cell img 0 0) = (255 * int 0) div (256 - 1) \<and>
            (\<forall>x' < nat 256. 0 \<le> x' \<longrightarrow> cell img 0 0 \<le> cell img 0 x')"
    using i(4) by simp
  have c255: "uint (cell img 0 255) = (255 * int 255) div (256 - 1)"
    using i(4) by simp
  have 2: "\<exists>img. generate_gradient_image 256 1 = Inr img \<and> nrows img = 1 \<and> ncols img = 256 \<and>
      uint (cell img 0 0) = 0 \<and> uint (cell img 0 255) = 255 \<and> cell img 0 0 \<le> cell img 0 255"
    using i(1,2,3) c0 c255 by (intro exI [of _ img]) simp
  have 3: "generate_gradient_image 1 1 = Inl ZeroDivisionError"
    using b [THEN conjunct2, THEN conjunct2, THEN conjunct1] by simp
  have 4: "gradient_value 256 0 \<le> gradient_value 256 255"
    using b [THEN conjunct2, THEN conjunct2, THEN conjunct2, THEN conjunct1] by simp
  show ?thesis using 1 2 3 4 by simp
qed

text \<open>
  The claim as stated fails for \<open>generate_gradient_image\<close>: with a width of 2 the value
  of column 1 is 255, not \<open>floor(255 * 1 / 2) = 127\<close>.
\<close>

theorem gradient_width_counterexample:
  "(case generate_gradient_image 2 1 of
      Inl e \<Rightarrow> []
    | Inr img \<Rightarrow> map (map uint) (np_rows img)) = [[0, 255]] \<and>
   (255 * 1) div (2 :: int) = 127"
  by code_simp

section \<open>Checkerboard\<close>

lemma to_uint8_0: "to_uint8 0 = Inr 0"
  by (simp add: to_uint8_def)

lemma to_uint8_255: "to_uint8 255 = Inr 255"
  by (simp add: to_uint8_def)

text \<open>
  C5.  With \<open>block_size = 2\<close>, \<open>dark = 0\<close> and \<open>bright = 255\<close> on a 4x4 grid the
  checkerboard generator returns, top to bottom, the rows \<open>0 0 255 255\<close>,
  \<open>0 0 255 255\<close>, \<open>255 255 0 0\<close>, \<open>255 255 0 0\<close>.
\<close>

theorem generate_checkerboard_image_4x4:
  "map_sum id np_rows (generate_checkerboard_image 4 4 2 0 255) =
     Inr [[0, 0, 255, 255], [0, 0, 255, 255], [255, 255, 0, 0], [255, 255, 0, 0]]"
  by (simp add: generate_checkerboard_image_def np_zeros_def py_range_def np_setitem_def
      to_uint8_0 to_uint8_255 np_rows_def upt_conv_Cons Let_def)

lemma np_rows_grid:
  "np_rows \<lparr>nrows = nat h, ncols = nat w,
            cell = (\<lambda>y x. if y < nat h \<and> x < nat w then f y x else z)\<rparr> = grid h w f"
  by (simp add: np_rows_def grid_def)

text \<open>
  C4, as the code has it.  In \<open>generate_checkerboard_image\<close>, for a block size other than
  0 and levels within \<open>0..255\<close>, the pixel \<open>(y, x)\<close> is \<open>dark\<close> when
  \<open>x div b + y div b\<close> is even and \<open>bright\<close> when it is odd.  In
  \<open>create_checkerboard_image\<close>, whose levels are fixed, it is 200 (the bright level) when
  the sum is even and 50 (the dark level) when it is odd.
\<close>

theorem checkerboard_values:
  "(0 \<le> width \<and> 0 \<le> height \<and> block_size \<noteq> 0 \<and>
    0 \<le> dark \<and> dark \<le> 255 \<and> 0 \<le> bright \<and> bright \<le> 255 \<longrightarrow>
      map_sum id np_rows (generate_checkerboard_image width height block_size dark bright) =
        Inr (grid height width
               (\<lambda>y x. if even (int x div block_size + int y div block_size)
                       then word_of_int dark else word_of_int bright))) \<and>
   (block_size \<noteq> 0 \<longrightarrow>
      create_checkerboard_image h w block_size =
        Inr (plaintext_matrix h w 1
               (grid h w (\<lambda>y x. if even (int x div block_size + int y div block_size)
                                  then 200 else 50))))"
  by (simp add: generate_checkerboard_image_array np_rows_grid create_checkerboard_image_text)

lemma checkerboard_text_2x4:
  "plaintext_matrix 2 4 1
     (grid 2 4 (\<lambda>y x. if even (int x div 2 + int y div 2) then 200 else 50))
   = ''2 4 1\<newline>200 200 50 50\<newline>200 200 50 50\<newline>''"
  by code_simp

lemma checkerboard_grid_2x3:
  "grid 2 3 (\<lambda>y x. if even (int x div 1 + int y div 1) then word_of_int 10 else word_of_int 20)
   = [[10, 20, 10], [20, 10, 20 :: 8 word]]"
  by (simp add: grid_def upt_conv_Cons)

theorem checkerboard_values_witness:
  "map_sum id np_rows (generate_checkerboard_image 3 2 1 10 20) =
     Inr [[10, 20, 10], [20, 10, 20]] \<and>
   create_checkerboard_image 2 4 2 = Inr ''2 4 1\<newline>200 200 50 50\<newline>200 200 50 50\<newline>''"
proof -
  have 1: "map_sum id np_rows (generate_checkerboard_image 3 2 1 10 20) =
             Inr (grid 2 3 (\<lambda>y x. if even (int x div 1 + int y div 1)
                                  then word_of_int 10 else word_of_int 20))"
    using checkerboard_values [of 3 2 1 10 20 2 4] by simp
  have 2: "create_checkerboard_image 2 4 2 =
             Inr (plaintext_matrix 2 4 1
                    (grid 2 4 (\<lambda>y x. if even (int x div 2 + int y div 2) then 200 else 50)))"
    using checkerboard_values [of 0 0 2 0 0 2 4] by simp
  show ?thesis
    unfolding 1 2 checkerboard_text_2x4 checkerboard_grid_2x3 by simp
qed

text \<open>
  The claim as stated fails for \<open>generate_checkerboard_image\<close>: at pixel \<open>(0, 0)\<close> the
  block sum is 0, which is even, and the value is the dark level 0, not the bright 255.
\<close>

theorem checkerboard_even_block_counterexample:
  "map_sum id (\<lambda>img. cell img 0 0) (generate_checkerboard_image 4 4 2 0 255) = Inr 0 \<and>
   even ((0 :: int) div 2 + 0 div 2)"
  by (simp add: generate_checkerboard_image_def np_zeros_def py_range_def np_setitem_def
      to_uint8_0 to_uint8_255 upt_conv_Cons Let_def)

end
